theory Spec2Isabelle
  imports Main "HOL-Library.AList" "HOL-Library.Multiset"
begin

section \<open>Data model\<close>

text \<open>
  Go pointers are modelled as addresses into a store: \<open>*FuncNode\<close>, \<open>*CallSite\<close>,
  \<open>*packages.Package\<close> and \<open>*Vuln\<close> are natural numbers, and the heap maps each
  address to the object it refers to. Two stack entries that name the same address share
  the object, as they do in Go. A pointer that the code tests against nil, or that the
  data model calls optional, is an \<open>option\<close>.
\<close>

type_synonym fptr = nat
type_synonym csptr = nat
type_synonym pkgptr = nat
type_synonym vptr = nat

text \<open>
  Modelled from the spec: \<open>token.Position\<close> of the Go library (file, offset, line,
  column); its declaration is not among the sources. \<open>IsValid\<close> is the library's
  test \<open>Line > 0\<close>.
\<close>

record Position =
  Filename :: string
  Offset :: int
  Line :: int
  Column :: int

definition IsValid :: "Position \<Rightarrow> bool" where
  "IsValid p = (Line p > 0)"

definition zero_Position :: Position where
  "zero_Position = \<lparr>Filename = [], Offset = 0, Line = 0, Column = 0\<rparr>"

text \<open>
  Modelled from the spec: the parts of \<open>packages.Package\<close> and of its syntax trees
  that the position reconciler reads. \<open>PackagePos\<close> is \<open>pkg.Fset.Position(f.Package)\<close>
  of a file, \<open>PathValue\<close> is \<open>impSpec.Path.Value\<close> (the quoted import path) and
  \<open>SpecPos\<close> is \<open>pkg.Fset.Position(impSpec.Pos())\<close>. \<open>ModulePath\<close> is
  \<open>pkg.Module.Path\<close>.
\<close>

record ImportSpec =
  PathValue :: string
  SpecPos :: Position

record File =
  PackagePos :: Position
  Imports :: "ImportSpec list"

record Package =
  PkgPath :: string
  ModulePath :: string
  Syntax :: "File list"

text \<open>
  Modelled from the spec: \<open>vulncheck.CallSite\<close>, \<open>vulncheck.FuncNode\<close> and
  \<open>vulncheck.Vuln\<close>, whose declarations are not among the sources. The field names are
  those the code reads. \<open>Pos\<close> and \<open>Package\<close> are nil-able pointers (the code tests
  them against nil); \<open>Parent\<close>, \<open>OSV\<close> and \<open>ImportSink\<close> are dereferenced without
  a test and are references to existing objects.
\<close>

record CallSite =
  Parent :: fptr
  Name :: string
  RecvType :: string
  Pos :: "Position option"
  Resolved :: bool

record FuncNode =
  Name :: string
  RecvType :: string
  Package :: "pkgptr option"
  Pos :: "Position option"
  CallSites :: "csptr list"

record Vuln =
  OSV_ID :: string
  CallSink :: "fptr option"
  ImportSink :: pkgptr

record heap =
  funcs :: "fptr \<Rightarrow> FuncNode"
  sites :: "csptr \<Rightarrow> CallSite"
  pkgs :: "pkgptr \<Rightarrow> Package"
  vulns :: "vptr \<Rightarrow> Vuln"

text \<open>
  \<open>StackEntry\<close> and \<open>CallStack\<close> as declared in the sources. \<open>Function\<close> is
  dereferenced without a test (a reference to an existing function); \<open>Call\<close> is nil
  in the last frame.
\<close>

record StackEntry =
  Function :: fptr
  Call :: "csptr option"

type_synonym CallStack = "StackEntry list"

section \<open>Ranking metrics and the stack comparator\<close>

primrec weight :: "heap \<Rightarrow> CallStack \<Rightarrow> int" where
  "weight h [] = 0"
| "weight h (e # stack) =
     (case Call e of
        None \<Rightarrow> 0
      | Some c \<Rightarrow> (if \<not> Resolved (sites h c) then 1 else 0)) + weight h stack"

definition isStdPackage :: "string \<Rightarrow> bool" where
  "isStdPackage pkg =
     (if pkg = [] then False
      else CHR ''.'' \<notin> set (takeWhile (\<lambda>c. c \<noteq> CHR ''/'') pkg))"

primrec confidence :: "heap \<Rightarrow> CallStack \<Rightarrow> int" where
  "confidence h [] = 0"
| "confidence h (e # stack) =
     (case Package (funcs h (Function e)) of
        None \<Rightarrow> 0
      | Some p \<Rightarrow> (if isStdPackage (PkgPath (pkgs h p)) then 1 else 0)) + confidence h stack"

definition stackLess :: "heap \<Rightarrow> CallStack \<Rightarrow> CallStack \<Rightarrow> bool" where
  "stackLess h s1 s2 =
     (let c1 = confidence h s1; c2 = confidence h s2 in
      if c1 \<noteq> c2 then c1 < c2
      else if length s1 \<noteq> length s2 then length s1 < length s2
      else let w1 = weight h s1; w2 = weight h s2 in
        if w1 \<noteq> w2 then w1 < w2
        else True)"

section \<open>Deterministic ordering primitives\<close>

text \<open>
  Go compares strings byte by byte; \<open>str_less\<close> is that order on \<open>string\<close>
  (a list of bytes). \<open>fmt.Sprintf("%v.%v", r, n)\<close> on two strings is \<open>r @ ''.'' @ n\<close>.
\<close>

fun str_less :: "string \<Rightarrow> string \<Rightarrow> bool" where
  "str_less [] t = (t \<noteq> [])"
| "str_less (a # s) [] = False"
| "str_less (a # s) (b # t) =
     ((of_char a :: nat) < of_char b \<or> ((of_char a :: nat) = of_char b \<and> str_less s t))"

definition Sprintf_dot :: "string \<Rightarrow> string \<Rightarrow> string" where
  "Sprintf_dot r n = r @ ''.'' @ n"

definition posLess :: "Position \<Rightarrow> Position \<Rightarrow> bool" where
  "posLess p1 p2 =
     (if Line p1 < Line p2 then True
      else if Line p2 < Line p1 then False
      else if Column p1 < Column p2 then True
      else if Column p2 < Column p1 then False
      else str_less (Filename p1) (Filename p2))"

text \<open>
  \<open>csLess\<close> reads \<open>cs1.Pos\<close> without a nil test, so its first argument is a reference
  to an existing call site; the second one may be nil (the lookup of a missing key in
  \<open>callsites\<close>). Both string operands of the comparison take \<open>cs2.Name\<close>, as the
  source does.
\<close>

definition csLess :: "heap \<Rightarrow> csptr \<Rightarrow> csptr option \<Rightarrow> bool" where
  "csLess h cs1 cs2o =
     (case cs2o of
        None \<Rightarrow> True
      | Some cs2 \<Rightarrow>
          (case (CallSite.Pos (sites h cs1), CallSite.Pos (sites h cs2)) of
             (Some p1, Some p2) \<Rightarrow>
               if posLess p1 p2 then True
               else if posLess p2 p1 then False
               else str_less
                 (Sprintf_dot (CallSite.RecvType (sites h cs1)) (CallSite.Name (sites h cs2)))
                 (Sprintf_dot (CallSite.RecvType (sites h cs2)) (CallSite.Name (sites h cs2)))
           | _ \<Rightarrow>
               if CallSite.Pos (sites h cs2) = None then True
               else if CallSite.Pos (sites h cs1) = None then False
               else str_less
                 (Sprintf_dot (CallSite.RecvType (sites h cs1)) (CallSite.Name (sites h cs2)))
                 (Sprintf_dot (CallSite.RecvType (sites h cs2)) (CallSite.Name (sites h cs2)))))"

text \<open>
  What the engine takes from outside the sources is a parameter of the model:
  \<^item> \<open>FuncNode_String\<close>: the method \<open>(*FuncNode).String\<close>;
  \<^item> \<open>range_order\<close>: the order in which \<open>range\<close> visits the entries of the map
    \<open>minCs\<close> (Go leaves it unspecified);
  \<^item> \<open>SliceStable_funcs\<close>, \<open>SliceStable_stacks\<close>: \<open>sort.SliceStable\<close> at the two
    slice types it is called on;
  \<^item> \<open>Unquote\<close>: \<open>strconv.Unquote\<close>, \<open>None\<close> when it returns an error.
\<close>

record extern =
  FuncNode_String :: "FuncNode \<Rightarrow> string"
  range_order :: "(fptr \<times> csptr) list \<Rightarrow> (fptr \<times> csptr) list"
  SliceStable_funcs :: "(fptr \<Rightarrow> fptr \<Rightarrow> bool) \<Rightarrow> fptr list \<Rightarrow> fptr list"
  SliceStable_stacks ::
    "(CallStack \<Rightarrow> CallStack \<Rightarrow> bool) \<Rightarrow> CallStack list \<Rightarrow> CallStack list"
  Unquote :: "string \<Rightarrow> string option"

definition funcLess :: "extern \<Rightarrow> heap \<Rightarrow> fptr \<Rightarrow> fptr \<Rightarrow> bool" where
  "funcLess x h f1 f2 =
     (case (FuncNode.Pos (funcs h f1), FuncNode.Pos (funcs h f2)) of
        (Some p1, Some p2) \<Rightarrow>
          if posLess p1 p2 then True
          else if posLess p2 p1 then False
          else str_less (FuncNode_String x (funcs h f1)) (FuncNode_String x (funcs h f2))
      | _ \<Rightarrow>
          if FuncNode.Pos (funcs h f2) = None then True
          else if FuncNode.Pos (funcs h f1) = None then False
          else str_less (FuncNode_String x (funcs h f1)) (FuncNode_String x (funcs h f2)))"

section \<open>Stack finder\<close>

text \<open>
  The Go map \<open>minCs\<close> is an association list with one entry per key; a lookup that
  misses gives nil (\<open>None\<close>). The first loop of \<open>callsites\<close>:
\<close>

fun minCs_loop ::
  "heap \<Rightarrow> fptr set \<Rightarrow> csptr list \<Rightarrow> (fptr \<times> csptr) list \<Rightarrow> (fptr \<times> csptr) list" where
  "minCs_loop h visited [] minCs = minCs"
| "minCs_loop h visited (cs # rest) minCs =
     (if Parent (sites h cs) \<in> visited then minCs_loop h visited rest minCs
      else if csLess h cs (map_of minCs (Parent (sites h cs)))
        then minCs_loop h visited rest (AList.update (Parent (sites h cs)) cs minCs)
      else minCs_loop h visited rest minCs)"

text \<open>
  The second loop collects \<open>cs.Parent\<close> of every entry, the slice is sorted, and the
  third loop looks every function up again. A lookup cannot miss in Go, where the slice
  holds the keys of the map; the model skips a function that is not a key.
\<close>

definition callsites :: "extern \<Rightarrow> heap \<Rightarrow> csptr list \<Rightarrow> fptr set \<Rightarrow> csptr list" where
  "callsites x h sts visited =
     (let minCs = minCs_loop h visited sts [];
          fs = map (\<lambda>(k, cs). Parent (sites h cs)) (range_order x minCs);
          fs' = SliceStable_funcs x (funcLess x h) fs
      in List.map_filter (map_of minCs) fs')"

text \<open>\<open>callChain\<close>: \<open>child\<close> is a nil-able pointer to the chain built before.\<close>

datatype callChain = Chain (call: "csptr option") (f: fptr) (child: "callChain option")

fun callChain_CallStack :: "callChain option \<Rightarrow> CallStack" where
  "callChain_CallStack None = []"
| "callChain_CallStack (Some (Chain cl fn ch)) =
     \<lparr>Function = fn, Call = cl\<rparr> # callChain_CallStack ch"

text \<open>
  Modelled from the spec: \<open>vulncheck.Result\<close>, of which the code reads the entry
  functions and the vulnerabilities.
\<close>

record Result =
  EntryFunctions :: "fptr list"
  Vulns :: "vptr list"

text \<open>
  The inner loop of \<open>callStacks\<close> over the selected call sites of the frontier chain
  \<open>c\<close>: it appends to \<open>stacks\<close> and pushes to the back of the queue.
\<close>

fun expand ::
  "heap \<Rightarrow> fptr set \<Rightarrow> callChain \<Rightarrow> csptr list \<Rightarrow> CallStack list \<times> callChain list
     \<Rightarrow> CallStack list \<times> callChain list" where
  "expand h entries c [] (stacks, queue) = (stacks, queue)"
| "expand h entries c (cs # css) (stacks, queue) =
     (let nStack = Chain (Some cs) (Parent (sites h cs)) (Some c) in
      expand h entries c css
        (if Parent (sites h cs) \<in> entries
           then stacks @ [callChain_CallStack (Some nStack)] else stacks,
         queue @ [nStack]))"

text \<open>
  The worklist loop. On a heap that holds infinitely many functions it need not end, so
  it is a partial function: \<open>None\<close> is a search that never returns.
\<close>

partial_function (option) callStacks_loop ::
  "extern \<Rightarrow> heap \<Rightarrow> fptr set \<Rightarrow> fptr set \<Rightarrow> callChain list \<Rightarrow> CallStack list
     \<Rightarrow> CallStack list option" where
  "callStacks_loop x h entries seen queue stacks =
     (case queue of
        [] \<Rightarrow> Some stacks
      | c # rest \<Rightarrow>
          if f c \<in> seen then callStacks_loop x h entries seen rest stacks
          else
            (case expand h entries c
                    (callsites x h (CallSites (funcs h (f c))) (insert (f c) seen))
                    (stacks, rest) of
               (stacks', queue') \<Rightarrow>
                 callStacks_loop x h entries (insert (f c) seen) queue' stacks'))"

definition callStacks ::
  "extern \<Rightarrow> heap \<Rightarrow> fptr option \<Rightarrow> Result \<Rightarrow> CallStack list option" where
  "callStacks x h vulnSink res =
     (case vulnSink of
        None \<Rightarrow> Some []
      | Some s \<Rightarrow>
          callStacks_loop x h (set (EntryFunctions res)) {} [Chain None s None] [])"

section \<open>Orchestrator\<close>

text \<open>
  One task per vulnerability computes and sorts its stacks and stores them under its own
  key, so the resulting map does not depend on the schedule; the tasks are run in the
  order of \<open>res.Vulns\<close>. The result map is an association list. A task that does not
  return blocks \<open>wg.Wait\<close> for ever: \<open>None\<close>.
\<close>

fun CallStacks_tasks ::
  "extern \<Rightarrow> heap \<Rightarrow> Result \<Rightarrow> vptr list \<Rightarrow> (vptr \<times> CallStack list) list
     \<Rightarrow> (vptr \<times> CallStack list) list option" where
  "CallStacks_tasks x h res [] stacksPerVuln = Some stacksPerVuln"
| "CallStacks_tasks x h res (vuln # rest) stacksPerVuln =
     (case callStacks x h (CallSink (vulns h vuln)) res of
        None \<Rightarrow> None
      | Some cs \<Rightarrow>
          CallStacks_tasks x h res rest
            (AList.update vuln (SliceStable_stacks x (stackLess h) cs) stacksPerVuln))"

definition CallStacks ::
  "extern \<Rightarrow> heap \<Rightarrow> Result \<Rightarrow> (vptr \<times> CallStack list) list option" where
  "CallStacks x h res = CallStacks_tasks x h res (Vulns res) []"

section \<open>Cross-vulnerability deduplicator\<close>

text \<open>
  A slice of stack entries is a list, and the nil stack that \<open>uniqueCallStack\<close> returns
  when no candidate is left is the empty list: the stacks of the finder always have an
  entry. \<open>vulnFuncs\<close> is the set of the call sinks of the group.
\<close>

fun uniqueCallStack :: "heap \<Rightarrow> vptr \<Rightarrow> CallStack list \<Rightarrow> vptr list \<Rightarrow> CallStack" where
  "uniqueCallStack h v [] vg = []"
| "uniqueCallStack h v (cs # css) vg =
     (if list_ex (\<lambda>e. Some (Function e) \<noteq> CallSink (vulns h v) \<and>
                       Some (Function e) \<in> set (map (\<lambda>w. CallSink (vulns h w)) vg)) cs
      then uniqueCallStack h v css vg
      else cs)"

type_synonym key = "string \<times> string \<times> string"

definition vuln_key :: "heap \<Rightarrow> vptr \<Rightarrow> key" where
  "vuln_key h vv =
     (OSV_ID (vulns h vv),
      PkgPath (pkgs h (ImportSink (vulns h vv))),
      ModulePath (pkgs h (ImportSink (vulns h vv))))"

text \<open>
  \<open>vulnsPerPkg\<close> is a Go map read with the zero value (the nil slice) for a missing
  key: a total function. The first loop of \<open>filterCallStacks\<close> over the keys of
  \<open>callstacks\<close>:
\<close>

fun vulnsPerPkg_loop :: "heap \<Rightarrow> vptr list \<Rightarrow> (key \<Rightarrow> vptr list) \<Rightarrow> key \<Rightarrow> vptr list" where
  "vulnsPerPkg_loop h [] vulnsPerPkg = vulnsPerPkg"
| "vulnsPerPkg_loop h (vv # rest) vulnsPerPkg =
     (if CallSink (vulns h vv) \<noteq> None
      then vulnsPerPkg_loop h rest
             (vulnsPerPkg(vuln_key h vv := vulnsPerPkg (vuln_key h vv) @ [vv]))
      else vulnsPerPkg_loop h rest vulnsPerPkg)"

text \<open>
  The second loop stores a new value under every key of \<open>callstacks\<close>; the value
  depends on the key, on its old value and on \<open>vulnsPerPkg\<close> only, so the loop is a map
  over the entries whatever order \<open>range\<close> takes.
\<close>

definition filterCallStacks ::
  "heap \<Rightarrow> (vptr \<times> CallStack list) list \<Rightarrow> (vptr \<times> CallStack list) list" where
  "filterCallStacks h callstacks =
     (let vulnsPerPkg = vulnsPerPkg_loop h (map fst callstacks) (\<lambda>k. []) in
      map (\<lambda>(vv, stacks).
             (vv,
              if CallSink (vulns h vv) \<noteq> None then
                (let vcs = uniqueCallStack h vv stacks (vulnsPerPkg (vuln_key h vv)) in
                 if vcs \<noteq> [] then [vcs] else [])
              else []))
          callstacks)"

text \<open>
  The deduplicator in the words of the specification: the vulnerabilities that are
  called and share the key of \<open>vv\<close> form its group; a frame blocks a stack of \<open>vv\<close>
  when its function is the call sink of another member of the group among the keys of
  the map, the own sink of \<open>vv\<close> being allowed; the result is the first candidate
  without a blocking frame, if there is one.
\<close>

definition same_group :: "heap \<Rightarrow> vptr \<Rightarrow> vptr \<Rightarrow> bool" where
  "same_group h vv w = (CallSink (vulns h w) \<noteq> None \<and> vuln_key h w = vuln_key h vv)"

definition blocking_frame ::
  "heap \<Rightarrow> (vptr \<times> CallStack list) list \<Rightarrow> vptr \<Rightarrow> StackEntry \<Rightarrow> bool" where
  "blocking_frame h callstacks vv e =
     ((\<exists>w \<in> set (map fst callstacks).
          same_group h vv w \<and> w \<noteq> vv \<and> CallSink (vulns h w) = Some (Function e))
      \<and> CallSink (vulns h vv) \<noteq> Some (Function e))"

definition dedup_spec ::
  "heap \<Rightarrow> (vptr \<times> CallStack list) list \<Rightarrow> vptr \<Rightarrow> CallStack list \<Rightarrow> CallStack list" where
  "dedup_spec h callstacks vv stacks =
     (if CallSink (vulns h vv) = None then []
      else case find (\<lambda>cs. \<forall>e \<in> set cs. \<not> blocking_frame h callstacks vv e) stacks of
             None \<Rightarrow> []
           | Some cs \<Rightarrow> [cs])"

section \<open>Position reconciler\<close>

datatype error = NilPointerDereference | UnquotePanic

definition bind_err :: "error + 'a \<Rightarrow> ('a \<Rightarrow> error + 'b) \<Rightarrow> error + 'b" where
  "bind_err m k = (case m of Inl e \<Rightarrow> Inl e | Inr v \<Rightarrow> k v)"

definition isInit :: "FuncNode \<Rightarrow> bool" where
  "isInit fn = (FuncNode.Name fn = ''init'' \<or> take 5 (FuncNode.Name fn) = ''init#'')"

definition packageStatementPos :: "heap \<Rightarrow> pkgptr option \<Rightarrow> error + Position" where
  "packageStatementPos h pkg =
     (case pkg of
        None \<Rightarrow> Inl NilPointerDereference
      | Some p \<Rightarrow>
          (case Syntax (pkgs h p) of
             [] \<Rightarrow> Inr zero_Position
           | file # _ \<Rightarrow> Inr (PackagePos file)))"

text \<open>
  The two nested loops of \<open>importStatementPos\<close> with their labelled \<open>break\<close> visit the
  import specifications of all files in order and stop at the first match; a path that
  cannot be unquoted before that panics.
\<close>

fun find_importSpec :: "extern \<Rightarrow> string \<Rightarrow> ImportSpec list \<Rightarrow> error + ImportSpec option" where
  "find_importSpec x importPath [] = Inr None"
| "find_importSpec x importPath (impSpec # rest) =
     (case Unquote x (PathValue impSpec) of
        None \<Rightarrow> Inl UnquotePanic
      | Some impSpecPath \<Rightarrow>
          if impSpecPath = importPath then Inr (Some impSpec)
          else find_importSpec x importPath rest)"

definition importStatementPos ::
  "extern \<Rightarrow> heap \<Rightarrow> pkgptr option \<Rightarrow> string \<Rightarrow> error + Position" where
  "importStatementPos x h pkg importPath =
     (case pkg of
        None \<Rightarrow> Inl NilPointerDereference
      | Some p \<Rightarrow>
          bind_err (find_importSpec x importPath (concat (map Imports (Syntax (pkgs h p)))))
            (\<lambda>importSpec.
               case importSpec of
                 None \<Rightarrow> Inr zero_Position
               | Some spec \<Rightarrow> Inr (SpecPos spec)))"

definition pos_available :: "Position option \<Rightarrow> bool" where
  "pos_available po = (case po of None \<Rightarrow> False | Some p \<Rightarrow> IsValid p)"

definition updateInitPosition :: "heap \<Rightarrow> StackEntry \<Rightarrow> error + heap" where
  "updateInitPosition h se =
     (let fn = funcs h (Function se) in
      if \<not> isInit fn \<or> pos_available (FuncNode.Pos fn) then Inr h
      else bind_err (packageStatementPos h (Package fn))
             (\<lambda>pos. Inr (h\<lparr>funcs := (funcs h)(Function se := fn\<lparr>FuncNode.Pos := Some pos\<rparr>)\<rparr>)))"

definition updateInitCallPosition ::
  "extern \<Rightarrow> heap \<Rightarrow> StackEntry \<Rightarrow> StackEntry \<Rightarrow> error + heap" where
  "updateInitCallPosition x h cur nxt =
     (if \<not> isInit (funcs h (Function nxt)) then Inr h
      else case Call cur of
        None \<Rightarrow> Inl NilPointerDereference
      | Some c \<Rightarrow>
          if pos_available (CallSite.Pos (sites h c)) then Inr h
          else
            bind_err
              (if FuncNode.Name (funcs h (Function cur)) = ''init'' \<and>
                  Package (funcs h (Function cur)) = Package (funcs h (Function nxt))
               then packageStatementPos h (Package (funcs h (Function cur)))
               else case Package (funcs h (Function nxt)) of
                      None \<Rightarrow> Inl NilPointerDereference
                    | Some np \<Rightarrow>
                        importStatementPos x h (Package (funcs h (Function cur)))
                          (PkgPath (pkgs h np)))
              (\<lambda>pos. Inr (h\<lparr>sites := (sites h)(c := (sites h c)\<lparr>CallSite.Pos := Some pos\<rparr>)\<rparr>)))"

text \<open>The three loops of \<open>updateInitPositions\<close>, innermost first.\<close>

fun updateInit_frames :: "extern \<Rightarrow> heap \<Rightarrow> CallStack \<Rightarrow> error + heap" where
  "updateInit_frames x h [] = Inr h"
| "updateInit_frames x h [e] = updateInitPosition h e"
| "updateInit_frames x h (e # nxt # rest) =
     bind_err (updateInitPosition h e)
       (\<lambda>h1. bind_err (updateInitCallPosition x h1 e nxt)
          (\<lambda>h2. updateInit_frames x h2 (nxt # rest)))"

fun updateInit_stacks :: "extern \<Rightarrow> heap \<Rightarrow> CallStack list \<Rightarrow> error + heap" where
  "updateInit_stacks x h [] = Inr h"
| "updateInit_stacks x h (cs # css) =
     bind_err (updateInit_frames x h cs) (\<lambda>h1. updateInit_stacks x h1 css)"

fun updateInitPositions ::
  "extern \<Rightarrow> heap \<Rightarrow> (vptr \<times> CallStack list) list \<Rightarrow> error + heap" where
  "updateInitPositions x h [] = Inr h"
| "updateInitPositions x h ((vv, css) # stacksPerVuln) =
     bind_err (updateInit_stacks x h css) (\<lambda>h1. updateInitPositions x h1 stacksPerVuln)"

section \<open>A concrete setting for the examples\<close>

text \<open>
  \<open>insertionSort\<close> is the insertion sort that \<open>sort.SliceStable\<close> runs on a slice of
  fewer than 20 elements: every element moves towards the front while \<open>less\<close> holds
  between it and its left neighbour. \<open>sift\<close> takes the sorted prefix back to front.
\<close>

fun sift :: "('a \<Rightarrow> 'a \<Rightarrow> bool) \<Rightarrow> 'a \<Rightarrow> 'a list \<Rightarrow> 'a list" where
  "sift lt a [] = [a]"
| "sift lt a (b # pre) = (if lt a b then b # sift lt a pre else a # b # pre)"

definition insertionSort :: "('a \<Rightarrow> 'a \<Rightarrow> bool) \<Rightarrow> 'a list \<Rightarrow> 'a list" where
  "insertionSort lt data = rev (foldl (\<lambda>pre a. sift lt a pre) [] data)"

definition Unquote_ex :: "string \<Rightarrow> string option" where
  "Unquote_ex s =
     (if 2 \<le> length s \<and> hd s = CHR 0x22 \<and> last s = CHR 0x22
      then Some (butlast (tl s)) else None)"

definition ex_extern :: extern where
  "ex_extern =
     \<lparr>FuncNode_String = (\<lambda>fn. Sprintf_dot (FuncNode.RecvType fn) (FuncNode.Name fn)),
      range_order = (\<lambda>m. m),
      SliceStable_funcs = insertionSort,
      SliceStable_stacks = insertionSort,
      Unquote = Unquote_ex\<rparr>"

definition pos_at :: "string \<Rightarrow> int \<Rightarrow> int \<Rightarrow> Position" where
  "pos_at file l c = \<lparr>Filename = file, Offset = 0, Line = l, Column = c\<rparr>"

definition no_func :: FuncNode where
  "no_func = \<lparr>Name = [], RecvType = [], Package = None, Pos = None, CallSites = []\<rparr>"

definition no_site :: CallSite where
  "no_site = \<lparr>Parent = 0, Name = [], RecvType = [], Pos = None, Resolved = True\<rparr>"

definition no_pkg :: Package where
  "no_pkg = \<lparr>PkgPath = [], ModulePath = [], Syntax = []\<rparr>"

definition no_vuln :: Vuln where
  "no_vuln = \<lparr>OSV_ID = [], CallSink = None, ImportSink = 0\<rparr>"

text \<open>
  The program of the first example: \<open>main\<close> (function 3, the entry function) calls
  \<open>A\<close> (1) and \<open>B\<close> (2), and each of them calls the vulnerable \<open>lib.Vuln\<close> (0).
  Vulnerability 0 has this sink; vulnerability 1 is imported only.
\<close>

definition h0 :: heap where
  "h0 =
     \<lparr>funcs = (\<lambda>_. no_func)
        (0 := \<lparr>Name = ''Vuln'', RecvType = [], Package = Some 1,
               Pos = Some (pos_at ''lib.go'' 10 1), CallSites = [0, 1]\<rparr>,
         1 := \<lparr>Name = ''A'', RecvType = [], Package = Some 0,
               Pos = Some (pos_at ''main.go'' 20 1), CallSites = [2]\<rparr>,
         2 := \<lparr>Name = ''B'', RecvType = [], Package = Some 0,
               Pos = Some (pos_at ''main.go'' 30 1), CallSites = [3]\<rparr>,
         3 := \<lparr>Name = ''main'', RecvType = [], Package = Some 0,
               Pos = Some (pos_at ''main.go'' 5 1), CallSites = []\<rparr>),
      sites = (\<lambda>_. no_site)
        (0 := \<lparr>Parent = 1, Name = ''Vuln'', RecvType = [],
               Pos = Some (pos_at ''main.go'' 21 3), Resolved = True\<rparr>,
         1 := \<lparr>Parent = 2, Name = ''Vuln'', RecvType = [],
               Pos = Some (pos_at ''main.go'' 31 3), Resolved = True\<rparr>,
         2 := \<lparr>Parent = 3, Name = ''A'', RecvType = [],
               Pos = Some (pos_at ''main.go'' 6 3), Resolved = True\<rparr>,
         3 := \<lparr>Parent = 3, Name = ''B'', RecvType = [],
               Pos = Some (pos_at ''main.go'' 7 3), Resolved = True\<rparr>),
      pkgs = (\<lambda>_. no_pkg)
        (0 := \<lparr>PkgPath = ''example.com/app'', ModulePath = ''example.com/app'', Syntax = []\<rparr>,
         1 := \<lparr>PkgPath = ''example.com/lib'', ModulePath = ''example.com/lib'', Syntax = []\<rparr>),
      vulns = (\<lambda>_. no_vuln)
        (0 := \<lparr>OSV_ID = ''GO-1'', CallSink = Some 0, ImportSink = 1\<rparr>,
         1 := \<lparr>OSV_ID = ''GO-2'', CallSink = None, ImportSink = 1\<rparr>)\<rparr>"

definition res0 :: Result where
  "res0 = \<lparr>EntryFunctions = [3], Vulns = [0, 1]\<rparr>"

definition stack_A :: CallStack where
  "stack_A =
     [\<lparr>Function = 3, Call = Some 2\<rparr>, \<lparr>Function = 1, Call = Some 0\<rparr>,
      \<lparr>Function = 0, Call = None\<rparr>]"

definition stack_B :: CallStack where
  "stack_B =
     [\<lparr>Function = 3, Call = Some 3\<rparr>, \<lparr>Function = 2, Call = Some 1\<rparr>,
      \<lparr>Function = 0, Call = None\<rparr>]"

text \<open>
  The second example: the initialiser \<open>init\<close> (function 1) calls \<open>init#1\<close>
  (function 0) at two call sites, and the initialiser of another package (function 2)
  calls it at a third; none of the functions and call sites has a position.
\<close>

definition h_nopos :: heap where
  "h_nopos =
     \<lparr>funcs = (\<lambda>_. no_func)
        (0 := \<lparr>Name = ''init#1'', RecvType = [], Package = Some 0,
               Pos = None, CallSites = [0, 1, 2]\<rparr>,
         1 := \<lparr>Name = ''init'', RecvType = [], Package = Some 0,
               Pos = None, CallSites = []\<rparr>,
         2 := \<lparr>Name = ''init'', RecvType = [], Package = Some 1,
               Pos = None, CallSites = []\<rparr>),
      sites = (\<lambda>_. no_site)
        (0 := \<lparr>Parent = 1, Name = ''f'', RecvType = ''a'', Pos = None, Resolved = True\<rparr>,
         1 := \<lparr>Parent = 1, Name = ''f'', RecvType = ''b'', Pos = None, Resolved = True\<rparr>,
         2 := \<lparr>Parent = 2, Name = ''f'', RecvType = ''c'', Pos = None, Resolved = True\<rparr>),
      pkgs = (\<lambda>_. no_pkg)
        (0 := \<lparr>PkgPath = ''example.com/app'', ModulePath = ''example.com/app'', Syntax = []\<rparr>,
         1 := \<lparr>PkgPath = ''example.com/dep'', ModulePath = ''example.com/dep'', Syntax = []\<rparr>),
      vulns = (\<lambda>_. no_vuln)\<rparr>"

text \<open>
  The third example: vulnerabilities 0 and 1 of the same advisory and package have the
  sinks \<open>Decode\<close> (function 0) and \<open>Parse\<close> (function 1); vulnerability 2 is imported
  only. The first candidate of vulnerability 0 runs through \<open>Parse\<close>, the second one
  through \<open>helper\<close> (function 3).
\<close>

definition h_dedup :: heap where
  "h_dedup =
     \<lparr>funcs = (\<lambda>_. no_func)
        (0 := \<lparr>Name = ''Decode'', RecvType = [], Package = Some 1, Pos = None, CallSites = []\<rparr>,
         1 := \<lparr>Name = ''Parse'', RecvType = [], Package = Some 1, Pos = None, CallSites = []\<rparr>,
         2 := \<lparr>Name = ''main'', RecvType = [], Package = Some 0, Pos = None, CallSites = []\<rparr>,
         3 := \<lparr>Name = ''helper'', RecvType = [], Package = Some 0, Pos = None, CallSites = []\<rparr>),
      sites = (\<lambda>_. no_site),
      pkgs = (\<lambda>_. no_pkg)
        (0 := \<lparr>PkgPath = ''example.com/app'', ModulePath = ''example.com/app'', Syntax = []\<rparr>,
         1 := \<lparr>PkgPath = ''example.com/lib'', ModulePath = ''example.com/lib'', Syntax = []\<rparr>),
      vulns = (\<lambda>_. no_vuln)
        (0 := \<lparr>OSV_ID = ''GO-1'', CallSink = Some 0, ImportSink = 1\<rparr>,
         1 := \<lparr>OSV_ID = ''GO-1'', CallSink = Some 1, ImportSink = 1\<rparr>,
         2 := \<lparr>OSV_ID = ''GO-1'', CallSink = None, ImportSink = 1\<rparr>)\<rparr>"

definition via_Parse :: CallStack where
  "via_Parse =
     [\<lparr>Function = 2, Call = Some 0\<rparr>, \<lparr>Function = 1, Call = Some 1\<rparr>,
      \<lparr>Function = 0, Call = None\<rparr>]"

definition via_helper :: CallStack where
  "via_helper =
     [\<lparr>Function = 2, Call = Some 2\<rparr>, \<lparr>Function = 3, Call = Some 3\<rparr>,
      \<lparr>Function = 0, Call = None\<rparr>]"

definition to_Parse :: CallStack where
  "to_Parse = [\<lparr>Function = 2, Call = Some 0\<rparr>, \<lparr>Function = 1, Call = None\<rparr>]"

definition ranked_dedup :: "(vptr \<times> CallStack list) list" where
  "ranked_dedup = [(0, [via_Parse, via_helper]), (1, [to_Parse]), (2, [])]"

text \<open>
  The fourth example: the implicit initialiser \<open>init\<close> (function 0) of a package has no
  position and calls the explicit \<open>init#1\<close> (function 1) at a call site without a
  position; \<open>init#1\<close> calls \<open>Vuln\<close> (function 2). The generated \<open>init\<close> of another
  package (function 3) has a position that is not nil but not valid (line 0).
\<close>

definition h_init :: heap where
  "h_init =
     \<lparr>funcs = (\<lambda>_. no_func)
        (0 := \<lparr>Name = ''init'', RecvType = [], Package = Some 0, Pos = None, CallSites = []\<rparr>,
         1 := \<lparr>Name = ''init#1'', RecvType = [], Package = Some 0,
               Pos = Some (pos_at ''pkg.go'' 7 1), CallSites = [0]\<rparr>,
         2 := \<lparr>Name = ''Vuln'', RecvType = [], Package = Some 0,
               Pos = Some (pos_at ''pkg.go'' 20 1), CallSites = [1]\<rparr>,
         3 := \<lparr>Name = ''init'', RecvType = [], Package = Some 1,
               Pos = Some (pos_at ''gen.go'' 0 0), CallSites = []\<rparr>),
      sites = (\<lambda>_. no_site)
        (0 := \<lparr>Parent = 0, Name = ''init#1'', RecvType = [], Pos = None, Resolved = True\<rparr>,
         1 := \<lparr>Parent = 1, Name = ''Vuln'', RecvType = [],
               Pos = Some (pos_at ''pkg.go'' 8 3), Resolved = True\<rparr>),
      pkgs = (\<lambda>_. no_pkg)
        (0 := \<lparr>PkgPath = ''example.com/pkg'', ModulePath = ''example.com/pkg'',
               Syntax = [\<lparr>PackagePos = pos_at ''pkg.go'' 1 1, Imports = []\<rparr>]\<rparr>,
         1 := \<lparr>PkgPath = ''example.com/gen'', ModulePath = ''example.com/gen'',
               Syntax = [\<lparr>PackagePos = pos_at ''gen.go'' 3 1, Imports = []\<rparr>]\<rparr>),
      vulns = (\<lambda>_. no_vuln)\<rparr>"

definition init_stack :: CallStack where
  "init_stack =
     [\<lparr>Function = 0, Call = Some 0\<rparr>, \<lparr>Function = 1, Call = Some 1\<rparr>,
      \<lparr>Function = 2, Call = None\<rparr>]"

definition gen_stack :: CallStack where
  "gen_stack = [\<lparr>Function = 3, Call = None\<rparr>]"

definition h_init_after :: heap where
  "h_init_after =
     h_init
       \<lparr>funcs := (funcs h_init)
          (0 := (funcs h_init 0)\<lparr>FuncNode.Pos := Some (pos_at ''pkg.go'' 1 1)\<rparr>),
        sites := (sites h_init)
          (0 := (sites h_init 0)\<lparr>CallSite.Pos := Some (pos_at ''pkg.go'' 1 1)\<rparr>)\<rparr>"

definition h_gen_after :: heap where
  "h_gen_after =
     h_init
       \<lparr>funcs := (funcs h_init)
          (3 := (funcs h_init 3)\<lparr>FuncNode.Pos := Some (pos_at ''gen.go'' 3 1)\<rparr>)\<rparr>"

text \<open>
  Two more inputs of the finder: in \<open>res_sink_entry\<close> the sink \<open>lib.Vuln\<close> of the first
  example is an entry function as well as \<open>main\<close>; in \<open>res_solo\<close> the only entry
  function is \<open>init\<close> of the second example, which nobody calls.
\<close>

definition res_sink_entry :: Result where
  "res_sink_entry = \<lparr>EntryFunctions = [0, 3], Vulns = [0]\<rparr>"

definition res_solo :: Result where
  "res_solo = \<lparr>EntryFunctions = [1], Vulns = []\<rparr>"

section \<open>Auxiliary notions for the proofs\<close>

text \<open>
  The group that \<open>filterCallStacks\<close> passes to \<open>uniqueCallStack\<close>, the test of the inner
  loop of \<open>uniqueCallStack\<close>, and the value that \<open>filterCallStacks\<close> stores under a key.
\<close>

definition group_of :: "heap \<Rightarrow> (vptr \<times> CallStack list) list \<Rightarrow> vptr \<Rightarrow> vptr list" where
  "group_of h callstacks vv =
     filter (\<lambda>w. CallSink (vulns h w) \<noteq> None \<and> vuln_key h w = vuln_key h vv) (map fst callstacks)"

definition code_blocking :: "heap \<Rightarrow> vptr \<Rightarrow> vptr list \<Rightarrow> StackEntry \<Rightarrow> bool" where
  "code_blocking h v vg e =
     (Some (Function e) \<noteq> CallSink (vulns h v) \<and>
      Some (Function e) \<in> set (map (\<lambda>w. CallSink (vulns h w)) vg))"

definition filtered_of :: "heap \<Rightarrow> vptr list \<Rightarrow> vptr \<Rightarrow> CallStack list \<Rightarrow> CallStack list" where
  "filtered_of h vg vv stacks =
     (if CallSink (vulns h vv) \<noteq> None then
        (let vcs = uniqueCallStack h vv stacks vg in if vcs \<noteq> [] then [vcs] else [])
      else [])"

text \<open>
  \<open>keeps h h'\<close>: every function and call-site position that is available in \<open>h\<close> (not
  nil and valid) is the same in \<open>h'\<close>.
\<close>

definition keeps :: "heap \<Rightarrow> heap \<Rightarrow> bool" where
  "keeps h h' =
     ((\<forall>f. pos_available (FuncNode.Pos (funcs h f)) \<longrightarrow>
           FuncNode.Pos (funcs h' f) = FuncNode.Pos (funcs h f)) \<and>
      (\<forall>c. pos_available (CallSite.Pos (sites h c)) \<longrightarrow>
           CallSite.Pos (sites h' c) = CallSite.Pos (sites h c)))"

text \<open>
  \<open>linked h S st\<close>: the stack \<open>st\<close> ends in the frame of \<open>S\<close> with a nil call, and
  the call of every other frame is a call site in that frame's function, listed among
  the incoming call sites of the function of the next frame. A chain or a recorded stack
  is good when it is linked; a recorded stack also starts at an entry function and has a
  caller frame.
\<close>

fun linked :: "heap \<Rightarrow> fptr \<Rightarrow> CallStack \<Rightarrow> bool" where
  "linked h S [] = False"
| "linked h S [e] = (Function e = S \<and> Call e = None)"
| "linked h S (e # e' # rest) =
     ((case Call e of
         None \<Rightarrow> False
       | Some cs \<Rightarrow> Parent (sites h cs) = Function e \<and>
                   cs \<in> set (CallSites (funcs h (Function e')))) \<and>
      linked h S (e' # rest))"

definition good_chain :: "heap \<Rightarrow> fptr \<Rightarrow> callChain \<Rightarrow> bool" where
  "good_chain h S c = linked h S (callChain_CallStack (Some c))"

definition good_stack :: "heap \<Rightarrow> fptr set \<Rightarrow> fptr \<Rightarrow> CallStack \<Rightarrow> bool" where
  "good_stack h E S st = (linked h S st \<and> Function (hd st) \<in> E \<and> 2 \<le> length st)"

text \<open>
  Two invariants of the first loop of \<open>callsites\<close>: every key of \<open>minCs\<close> is the
  unvisited parent of its call site; and for every call site looked at so far that has
  a position, the entry of its parent has a position that is not above it.
\<close>

definition keys_ok :: "heap \<Rightarrow> fptr set \<Rightarrow> (fptr \<times> csptr) list \<Rightarrow> bool" where
  "keys_ok h visited m =
     (\<forall>k c. map_of m k = Some c \<longrightarrow> k = Parent (sites h c) \<and> k \<notin> visited)"

definition pos_min :: "heap \<Rightarrow> fptr set \<Rightarrow> (fptr \<times> csptr) list \<Rightarrow> csptr set \<Rightarrow> bool" where
  "pos_min h visited m S =
     (\<forall>s p. s \<in> S \<longrightarrow> Parent (sites h s) \<notin> visited \<longrightarrow> CallSite.Pos (sites h s) = Some p \<longrightarrow>
         (\<exists>c q. map_of m (Parent (sites h s)) = Some c \<and> CallSite.Pos (sites h c) = Some q \<and>
                \<not> posLess p q))"

section \<open>The stack comparator\<close>

lemma stackLess_iff:
  "stackLess h s1 s2 \<longleftrightarrow>
     confidence h s1 < confidence h s2 \<or>
     confidence h s1 = confidence h s2 \<and>
       (length s1 < length s2 \<or>
        length s1 = length s2 \<and> weight h s1 \<le> weight h s2)"
  by (auto simp: stackLess_def Let_def)

lemma stackLess_refl: "stackLess h s s"
  by (simp add: stackLess_iff)

lemma callStacks_h0: "callStacks ex_extern h0 (Some 0) res0 = Some [stack_A, stack_B]"
  by (simp add: callStacks_def callStacks_loop.simps callsites_def Let_def h0_def res0_def
      csLess_def posLess_def pos_at_def ex_extern_def funcLess_def insertionSort_def
      List.map_filter_def stack_A_def stack_B_def)

text \<open>
  C1. The comparator orders by confidence, then length, then weight (\<open>stackLess_iff\<close>),
  but a pair that ties on all three is not declared equal: \<open>stackLess\<close> answers
  \<open>true\<close> in both directions. On the two stacks that the search finds in the first
  example, in this order, each precedes the other, all three metrics being equal; the
  insertion sort of \<open>sort.SliceStable\<close> therefore exchanges them.
\<close>

theorem stackLess_tie_both_ways:
  "stackLess h0 stack_A stack_B \<and> stackLess h0 stack_B stack_A \<and>
   confidence h0 stack_A = confidence h0 stack_B \<and>
   length stack_A = length stack_B \<and>
   weight h0 stack_A = weight h0 stack_B \<and>
   insertionSort (stackLess h0) [stack_A, stack_B] = [stack_B, stack_A]"
  by (simp add: stackLess_def Let_def stack_A_def stack_B_def h0_def isStdPackage_def
      insertionSort_def)

section \<open>The metrics\<close>

lemma confidence_append: "confidence h (pre @ post) = confidence h pre + confidence h post"
  by (induction pre) simp_all

text \<open>
  C10. A frame whose function has a nil \<open>Package\<close>, or a package with the empty path,
  adds nothing to the confidence of a stack, wherever it stands; \<open>isStdPackage\<close> is
  false on the empty path.
\<close>

theorem confidence_ignores_unpackaged_frame:
  assumes "Package (funcs h (Function e)) = None \<or>
           (\<exists>p. Package (funcs h (Function e)) = Some p \<and> PkgPath (pkgs h p) = [])"
  shows "\<not> isStdPackage [] \<and> confidence h (pre @ e # post) = confidence h (pre @ post)"
  using assms by (auto simp: confidence_append isStdPackage_def)

theorem confidence_ignores_unpackaged_frame_witness:
  "Package (funcs h0 (Function \<lparr>Function = 7, Call = None\<rparr>)) = None \<and>
   \<not> isStdPackage [] \<and>
   confidence h0 (stack_A @ \<lparr>Function = 7, Call = None\<rparr> # stack_B) =
     confidence h0 (stack_A @ stack_B)"
proof -
  have nil: "Package (funcs h0 (Function \<lparr>Function = 7, Call = None\<rparr>)) = None"
    by (simp add: h0_def no_func_def)
  from confidence_ignores_unpackaged_frame [of h0 "\<lparr>Function = 7, Call = None\<rparr>" stack_A stack_B]
    nil show ?thesis by blast
qed

section \<open>The call-site order\<close>

lemma csLess_nil: "csLess h cs1 None"
  by (simp add: csLess_def)

lemma csLess_both_present:
  assumes "CallSite.Pos (sites h cs1) = Some p1" and "CallSite.Pos (sites h cs2) = Some p2"
  shows "posLess p1 p2 \<Longrightarrow> csLess h cs1 (Some cs2)"
    and "\<not> posLess p1 p2 \<Longrightarrow> posLess p2 p1 \<Longrightarrow> \<not> csLess h cs1 (Some cs2)"
  using assms by (simp_all add: csLess_def)

lemma csLess_one_absent:
  shows "CallSite.Pos (sites h cs1) = None \<Longrightarrow> CallSite.Pos (sites h cs2) = Some p2 \<Longrightarrow>
           \<not> csLess h cs1 (Some cs2)"
    and "CallSite.Pos (sites h cs1) = Some p1 \<Longrightarrow> CallSite.Pos (sites h cs2) = None \<Longrightarrow>
           csLess h cs1 (Some cs2)"
  by (simp_all add: csLess_def)

lemma csLess_both_absent:
  "CallSite.Pos (sites h cs1) = None \<Longrightarrow> CallSite.Pos (sites h cs2) = None \<Longrightarrow>
     csLess h cs1 (Some cs2)"
  by (simp add: csLess_def)

text \<open>
  C6. The smaller position wins when both are present, an absent position loses to a
  present one, and nil comes after every call site (the lemmas above). With both
  positions absent, however, \<open>csLess\<close> answers \<open>true\<close> at once; the comparison of
  the \<open>receiverType.calleeName\<close> strings that follows in the source is never reached.
  In the second example the site with receiver \<open>b\<close> precedes the site with receiver
  \<open>a\<close>, although \<open>b.f\<close> is not below \<open>a.f\<close>.
\<close>

theorem csLess_absent_positions_no_fallback:
  "CallSite.Pos (sites h_nopos 1) = None \<and> CallSite.Pos (sites h_nopos 0) = None \<and>
   csLess h_nopos 1 (Some 0) \<and>
   \<not> str_less
        (Sprintf_dot (CallSite.RecvType (sites h_nopos 1)) (CallSite.Name (sites h_nopos 1)))
        (Sprintf_dot (CallSite.RecvType (sites h_nopos 0)) (CallSite.Name (sites h_nopos 0)))"
  by (simp add: csLess_def h_nopos_def Sprintf_dot_def)

section \<open>Selection of representative call sites\<close>

text \<open>
  What \<open>callsites\<close> returns whatever the call-site order does on ties: call sites of
  the given list, with unvisited parents, and for each of them a position that no
  positioned call site of the same caller is below (\<open>posLess\<close> is a strict order on
  line, column and file name).
\<close>

lemma set_AList_update: "set (AList.update k v al) \<subseteq> insert (k, v) (set al)"
  by (induction al) auto

lemma minCs_loop_values:
  "snd ` set (minCs_loop h visited sts m) \<subseteq> snd ` set m \<union> set sts"
proof (induction sts arbitrary: m)
  case Nil then show ?case by simp
next
  case (Cons cs rest)
  let ?m = "AList.update (Parent (sites h cs)) cs m"
  have up: "snd ` set ?m \<subseteq> insert cs (snd ` set m)"
    using set_AList_update[of "Parent (sites h cs)" cs m] by force
  have "A \<subseteq> C \<union> R \<Longrightarrow> A \<subseteq> C \<union> insert cs R" for A C R :: "csptr set" by blast
  then have keep:
    "snd ` set (minCs_loop h visited rest m) \<subseteq> snd ` set m \<union> set (cs # rest)"
    using Cons.IH[of m] by (simp only: list.set)
  have "snd ` set (minCs_loop h visited rest ?m) \<subseteq> snd ` set ?m \<union> set rest"
    by (rule Cons.IH)
  moreover have "A \<subseteq> B \<union> R \<Longrightarrow> B \<subseteq> insert cs C \<Longrightarrow> A \<subseteq> C \<union> insert cs R"
    for A B C R :: "csptr set" by blast
  ultimately have upd:
    "snd ` set (minCs_loop h visited rest ?m) \<subseteq> snd ` set m \<union> set (cs # rest)"
    using up by (simp only: list.set)
  from keep upd show ?case by simp
qed

lemma callsites_subset: "set (callsites x h sts visited) \<subseteq> set sts"
proof
  fix cs assume "cs \<in> set (callsites x h sts visited)"
  then obtain k where "map_of (minCs_loop h visited sts []) k = Some cs"
    by (auto simp: callsites_def Let_def List.map_filter_def)
  then have "cs \<in> snd ` set (minCs_loop h visited sts [])"
    by (force dest: map_of_SomeD)
  with minCs_loop_values[of h visited sts "[]"] show "cs \<in> set sts" by auto
qed

lemma str_less_irrefl: "\<not> str_less s s"
  by (induction s) auto

lemma str_less_trans: "str_less a b \<Longrightarrow> str_less b c \<Longrightarrow> str_less a c"
proof (induction a b arbitrary: c rule: str_less.induct)
  case (1 t) then show ?case by (cases c; cases t) auto
next
  case (2 a s) then show ?case by simp
next
  case (3 a s b t)
  then show ?case by (cases c) (auto split: if_splits)
qed

lemma str_less_total: "str_less a b \<or> a = b \<or> str_less b a"
proof (induction a b rule: str_less.induct)
  case (1 t) then show ?case by (cases t) auto
next
  case (2 a s) then show ?case by simp
next
  case (3 a s b t)
  have "(of_char a :: nat) = of_char b \<Longrightarrow> a = b" by simp
  with 3 show ?case by (auto simp: not_less)
qed

lemma str_less_neg_trans: "\<not> str_less a b \<Longrightarrow> \<not> str_less b c \<Longrightarrow> \<not> str_less a c"
  using str_less_total[of a b] str_less_total[of b c] str_less_trans str_less_irrefl by metis

lemma posLess_irrefl: "\<not> posLess p p"
  by (simp add: posLess_def str_less_irrefl)

lemma posLess_asym: "posLess p q \<Longrightarrow> \<not> posLess q p"
  using str_less_trans str_less_irrefl by (auto simp: posLess_def split: if_splits)

lemma posLess_neg_trans: "\<not> posLess a b \<Longrightarrow> \<not> posLess b c \<Longrightarrow> \<not> posLess a c"
  using str_less_neg_trans[of "Filename a" "Filename b" "Filename c"]
  by (auto simp: posLess_def split: if_splits)



lemma csLess_SomeD:
  assumes "csLess h cs (Some c)" "CallSite.Pos (sites h c) = Some q"
  shows "\<exists>r. CallSite.Pos (sites h cs) = Some r \<and> \<not> posLess q r"
proof (cases "CallSite.Pos (sites h cs)")
  case None
  with assms show ?thesis by (simp add: csLess_def)
next
  case (Some r)
  show ?thesis
  proof (cases "posLess r q")
    case True
    with Some posLess_asym show ?thesis by blast
  next
    case False
    with assms Some have "\<not> posLess q r" by (simp add: csLess_def split: if_splits)
    with Some show ?thesis by simp
  qed
qed

lemma not_csLessD:
  assumes "\<not> csLess h cs co" "CallSite.Pos (sites h cs) = Some r"
  shows "\<exists>c q. co = Some c \<and> CallSite.Pos (sites h c) = Some q \<and> \<not> posLess r q"
proof (cases co)
  case None
  with assms show ?thesis by (simp add: csLess_def)
next
  case (Some c)
  show ?thesis
  proof (cases "CallSite.Pos (sites h c)")
    case None
    with assms Some show ?thesis by (simp add: csLess_def)
  next
    case (Some q)
    with assms \<open>co = Some c\<close> have "\<not> posLess r q" by (simp add: csLess_def split: if_splits)
    with Some \<open>co = Some c\<close> show ?thesis by simp
  qed
qed


lemma pos_minD:
  "pos_min h visited m S \<Longrightarrow> s \<in> S \<Longrightarrow> Parent (sites h s) \<notin> visited \<Longrightarrow>
   CallSite.Pos (sites h s) = Some p \<Longrightarrow>
   \<exists>c q. map_of m (Parent (sites h s)) = Some c \<and> CallSite.Pos (sites h c) = Some q \<and>
         \<not> posLess p q"
  unfolding pos_min_def by blast

lemma keys_ok_update:
  "keys_ok h visited m \<Longrightarrow> Parent (sites h cs) \<notin> visited \<Longrightarrow>
   keys_ok h visited (AList.update (Parent (sites h cs)) cs m)"
  unfolding keys_ok_def by (simp add: update_conv')

lemma pos_min_keep:
  assumes inv: "pos_min h visited m S"
    and no: "\<not> csLess h cs (map_of m (Parent (sites h cs)))"
  shows "pos_min h visited m (insert cs S)"
  unfolding pos_min_def
proof (intro allI impI)
  fix s p
  assume s: "s \<in> insert cs S" "Parent (sites h s) \<notin> visited" "CallSite.Pos (sites h s) = Some p"
  show "\<exists>c q. map_of m (Parent (sites h s)) = Some c \<and> CallSite.Pos (sites h c) = Some q \<and>
         \<not> posLess p q"
  proof (cases "s = cs")
    case True
    with not_csLessD[OF no] s(3) show ?thesis by simp
  next
    case False
    with s(1) have "s \<in> S" by simp
    from pos_minD[OF inv this s(2,3)] show ?thesis .
  qed
qed

lemma pos_min_update:
  assumes inv: "pos_min h visited m S"
    and yes: "csLess h cs (map_of m (Parent (sites h cs)))"
  shows "pos_min h visited (AList.update (Parent (sites h cs)) cs m) (insert cs S)"
  unfolding pos_min_def
proof (intro allI impI)
  let ?k = "Parent (sites h cs)"
  let ?m = "AList.update ?k cs m"
  fix s p
  assume s: "s \<in> insert cs S" "Parent (sites h s) \<notin> visited" "CallSite.Pos (sites h s) = Some p"
  show "\<exists>c q. map_of ?m (Parent (sites h s)) = Some c \<and> CallSite.Pos (sites h c) = Some q \<and>
         \<not> posLess p q"
  proof (cases "s = cs")
    case True
    have "map_of ?m ?k = Some cs" by (simp add: update_conv')
    with True s(3) posLess_irrefl show ?thesis by auto
  next
    case False
    with s(1) have "s \<in> S" by simp
    from pos_minD[OF inv this s(2,3)] obtain c q where
      c: "map_of m (Parent (sites h s)) = Some c" "CallSite.Pos (sites h c) = Some q"
         "\<not> posLess p q" by blast
    show ?thesis
    proof (cases "Parent (sites h s) = ?k")
      case False
      then have "map_of ?m (Parent (sites h s)) = map_of m (Parent (sites h s))"
        by (simp add: update_conv')
      with c show ?thesis by auto
    next
      case True
      with yes c(1) have "csLess h cs (Some c)" by simp
      from csLess_SomeD[OF this c(2)] obtain r where
        r: "CallSite.Pos (sites h cs) = Some r" "\<not> posLess q r" by blast
      from posLess_neg_trans[OF c(3) r(2)] have "\<not> posLess p r" .
      moreover have "map_of ?m (Parent (sites h s)) = Some cs"
        using True by (simp add: update_conv')
      ultimately show ?thesis using r(1) by auto
    qed
  qed
qed

lemma pos_min_visited:
  "pos_min h visited m S \<Longrightarrow> Parent (sites h cs) \<in> visited \<Longrightarrow>
   pos_min h visited m (insert cs S)"
  unfolding pos_min_def by blast

lemma minCs_loop_inv:
  "keys_ok h visited m \<Longrightarrow> pos_min h visited m S \<Longrightarrow>
   keys_ok h visited (minCs_loop h visited sts m) \<and>
   pos_min h visited (minCs_loop h visited sts m) (S \<union> set sts)"
proof (induction sts arbitrary: m S)
  case Nil then show ?case by simp
next
  case (Cons cs rest)
  have un: "S \<union> set (cs # rest) = insert cs S \<union> set rest" by simp
  show ?case
  proof (cases "Parent (sites h cs) \<in> visited")
    case True
    from Cons.IH[OF Cons.prems(1) pos_min_visited[OF Cons.prems(2) True]] True
    show ?thesis unfolding un by simp
  next
    case nv: False
    show ?thesis
    proof (cases "csLess h cs (map_of m (Parent (sites h cs)))")
      case True
      from Cons.IH[OF keys_ok_update[OF Cons.prems(1) nv] pos_min_update[OF Cons.prems(2) True]]
        nv True
      show ?thesis unfolding un by simp
    next
      case False
      from Cons.IH[OF Cons.prems(1) pos_min_keep[OF Cons.prems(2) False]] nv False
      show ?thesis unfolding un by simp
    qed
  qed
qed

lemma minCs_inv:
  "keys_ok h visited (minCs_loop h visited sts []) \<and>
   pos_min h visited (minCs_loop h visited sts []) (set sts)"
  using minCs_loop_inv[of h visited "[]" "{}" sts]
  by (simp add: keys_ok_def pos_min_def)

lemma callsites_lookup:
  "cs \<in> set (callsites x h sts visited) \<Longrightarrow>
   \<exists>k. map_of (minCs_loop h visited sts []) k = Some cs"
  by (auto simp: callsites_def Let_def List.map_filter_def)

lemma callsites_unvisited:
  assumes "cs \<in> set (callsites x h sts visited)"
  shows "Parent (sites h cs) \<notin> visited"
  using callsites_lookup[OF assms] minCs_inv[of h visited sts]
  unfolding keys_ok_def by blast

lemma callsites_min_position:
  assumes "cs \<in> set (callsites x h sts visited)" and "s \<in> set sts"
    and "Parent (sites h s) = Parent (sites h cs)" and "CallSite.Pos (sites h s) = Some p"
  shows "\<exists>q. CallSite.Pos (sites h cs) = Some q \<and> \<not> posLess p q"
proof -
  from callsites_lookup[OF assms(1)] obtain k where
    k: "map_of (minCs_loop h visited sts []) k = Some cs" by blast
  with minCs_inv[of h visited sts] have kp: "k = Parent (sites h cs)" "k \<notin> visited"
    unfolding keys_ok_def by blast+
  from minCs_inv[of h visited sts] have "pos_min h visited (minCs_loop h visited sts []) (set sts)"
    by simp
  from pos_minD[OF this assms(2) _ assms(4)] kp assms(3) obtain c q where
    "map_of (minCs_loop h visited sts []) (Parent (sites h s)) = Some c"
    "CallSite.Pos (sites h c) = Some q" "\<not> posLess p q" by auto
  with k kp assms(3) show ?thesis by auto
qed

text \<open>
  When \<open>range\<close> and the sort only permute their input, the callers of the returned
  call sites are the keys of \<open>minCs\<close>, each once.
\<close>

lemma minCs_loop_distinct:
  "distinct (map fst m) \<Longrightarrow> distinct (map fst (minCs_loop h visited sts m))"
  by (induction sts arbitrary: m) (simp_all add: distinct_update)

lemma minCs_loop_entries:
  "\<forall>e\<in>set m. fst e = Parent (sites h (snd e)) \<Longrightarrow>
   \<forall>e\<in>set (minCs_loop h visited sts m). fst e = Parent (sites h (snd e))"
proof (induction sts arbitrary: m)
  case Nil then show ?case by simp
next
  case (Cons cs rest)
  let ?m = "AList.update (Parent (sites h cs)) cs m"
  have "\<forall>e\<in>set ?m. fst e = Parent (sites h (snd e))"
    using set_AList_update[of "Parent (sites h cs)" cs m] Cons.prems by auto
  from Cons.IH[OF this] Cons.IH[OF Cons.prems] show ?case by simp
qed

lemma map_map_filter_id:
  "\<forall>k\<in>set ks. \<exists>c. g k = Some c \<and> P c = k \<Longrightarrow> map P (List.map_filter g ks) = ks"
  by (induction ks) auto

lemma callsites_parents:
  assumes rng: "\<And>m. mset (range_order x m) = mset m"
    and srt: "\<And>lt fs. mset (SliceStable_funcs x lt fs) = mset fs"
  shows "mset (map (\<lambda>cs. Parent (sites h cs)) (callsites x h sts visited))
           = mset (map fst (minCs_loop h visited sts []))"
proof -
  let ?m = "minCs_loop h visited sts []"
  let ?fs = "map (\<lambda>(k, cs). Parent (sites h cs)) (range_order x ?m)"
  let ?fs' = "SliceStable_funcs x (funcLess x h) ?fs"
  have ent: "\<forall>e\<in>set ?m. fst e = Parent (sites h (snd e))"
    by (rule minCs_loop_entries) simp
  have dist: "distinct (map fst ?m)" by (rule minCs_loop_distinct) simp
  have "set (range_order x ?m) = set ?m" using rng[of ?m] by (rule mset_eq_setD)
  with ent have eq: "?fs = map fst (range_order x ?m)" by (auto simp: case_prod_beta)
  have "mset ?fs = mset (map fst (range_order x ?m))" by (simp only: eq)
  also have "\<dots> = image_mset fst (mset (range_order x ?m))" by simp
  also have "\<dots> = image_mset fst (mset ?m)" by (simp only: rng)
  also have "\<dots> = mset (map fst ?m)" by simp
  finally have "mset ?fs = mset (map fst ?m)" .
  with srt[of "funcLess x h" ?fs] have perm: "mset ?fs' = mset (map fst ?m)" by simp
  then have "set ?fs' = fst ` set ?m" by (metis mset_eq_setD set_map)
  have "\<forall>k\<in>set ?fs'. \<exists>c. map_of ?m k = Some c \<and> Parent (sites h c) = k"
  proof
    fix k assume "k \<in> set ?fs'"
    with \<open>set ?fs' = fst ` set ?m\<close> obtain c where kc: "(k, c) \<in> set ?m" by auto
    with dist have "map_of ?m k = Some c" by simp
    moreover from ent kc have "Parent (sites h c) = k" by auto
    ultimately show "\<exists>c. map_of ?m k = Some c \<and> Parent (sites h c) = k" by blast
  qed
  from map_map_filter_id[OF this]
  have "map (\<lambda>cs. Parent (sites h cs)) (callsites x h sts visited) = ?fs'"
    by (simp add: callsites_def Let_def)
  with perm show ?thesis by simp
qed

lemma callsites_one_per_caller:
  assumes "\<And>m. mset (range_order x m) = mset m"
    and "\<And>lt fs. mset (SliceStable_funcs x lt fs) = mset fs"
  shows "distinct (map (\<lambda>cs. Parent (sites h cs)) (callsites x h sts visited))"
proof -
  have "distinct (map fst (minCs_loop h visited sts []))" by (rule minCs_loop_distinct) simp
  with callsites_parents[OF assms, of h sts visited] show ?thesis
    by (metis mset_eq_imp_distinct_iff)
qed

text \<open>
  C4. In the second example the call sites 0 and 1 belong to the caller \<open>init\<close>, which
  is not visited. \<open>callsites\<close> returns the one listed last, although the other one
  precedes it under \<open>csLess\<close> and has the smaller \<open>receiverType.calleeName\<close> string.
  With the two position-less callers 1 and 2, each of which precedes the other under
  \<open>funcLess\<close>, the order of the result follows the order in which \<open>range\<close> visits
  the map.
\<close>

theorem callsites_not_smallest:
  "callsites ex_extern h_nopos [0, 1] {0} = [1] \<and>
   callsites ex_extern h_nopos [1, 0] {0} = [0] \<and>
   Parent (sites h_nopos 0) = Parent (sites h_nopos 1) \<and>
   csLess h_nopos 0 (Some 1) \<and>
   str_less
     (Sprintf_dot (CallSite.RecvType (sites h_nopos 0)) (CallSite.Name (sites h_nopos 0)))
     (Sprintf_dot (CallSite.RecvType (sites h_nopos 1)) (CallSite.Name (sites h_nopos 1))) \<and>
   callsites ex_extern h_nopos [1, 2] {0} = [2, 1] \<and>
   callsites (ex_extern\<lparr>range_order := rev\<rparr>) h_nopos [1, 2] {0} = [1, 2] \<and>
   funcLess ex_extern h_nopos 1 2 \<and> funcLess ex_extern h_nopos 2 1"
  by (simp add: callsites_def csLess_def funcLess_def h_nopos_def Sprintf_dot_def Let_def
      ex_extern_def insertionSort_def List.map_filter_def)

section \<open>The deduplicator\<close>

lemma vulnsPerPkg_loop_eq:
  "vulnsPerPkg_loop h vs m k = m k @ filter (\<lambda>w. CallSink (vulns h w) \<noteq> None \<and> vuln_key h w = k) vs"
  by (induction vs arbitrary: m) auto

lemma filterCallStacks_entries:
  "filterCallStacks h callstacks =
     map (\<lambda>p. (fst p, filtered_of h (group_of h callstacks (fst p)) (fst p) (snd p))) callstacks"
  by (simp add: filterCallStacks_def vulnsPerPkg_loop_eq filtered_of_def group_of_def
      case_prod_beta Let_def)

lemma uniqueCallStack_find:
  "uniqueCallStack h v css vg =
     (case find (\<lambda>cs. \<not> list_ex (code_blocking h v vg) cs) css of
        None \<Rightarrow> [] | Some cs \<Rightarrow> cs)"
  by (induction css) (auto simp: code_blocking_def)

lemma code_blocking_group:
  "code_blocking h vv (group_of h callstacks vv) e \<longleftrightarrow> blocking_frame h callstacks vv e"
proof
  assume "code_blocking h vv (group_of h callstacks vv) e"
  then obtain w where w: "w \<in> set (group_of h callstacks vv)"
      "CallSink (vulns h w) = Some (Function e)"
      and ne: "Some (Function e) \<noteq> CallSink (vulns h vv)"
    by (auto simp: code_blocking_def)
  from w ne have "w \<in> set (map fst callstacks)" "same_group h vv w" "w \<noteq> vv"
    by (auto simp: group_of_def same_group_def)
  with w ne show "blocking_frame h callstacks vv e"
    unfolding blocking_frame_def by metis
next
  assume "blocking_frame h callstacks vv e"
  then obtain w where "w \<in> set (map fst callstacks)" "same_group h vv w"
      "CallSink (vulns h w) = Some (Function e)"
      and ne: "CallSink (vulns h vv) \<noteq> Some (Function e)"
    unfolding blocking_frame_def by blast
  then have "w \<in> set (group_of h callstacks vv)" "CallSink (vulns h w) = Some (Function e)"
    by (auto simp: group_of_def same_group_def)
  then have "Some (Function e) \<in> set (map (\<lambda>w. CallSink (vulns h w)) (group_of h callstacks vv))"
    by (metis image_eqI list.set_map)
  with ne show "code_blocking h vv (group_of h callstacks vv) e"
    by (auto simp: code_blocking_def)
qed

lemma filtered_of_spec:
  assumes "[] \<notin> set stacks"
  shows "filtered_of h (group_of h callstacks vv) vv stacks = dedup_spec h callstacks vv stacks"
proof -
  have eq: "(\<lambda>cs. \<not> list_ex (code_blocking h vv (group_of h callstacks vv)) cs)
     = (\<lambda>cs. \<forall>e \<in> set cs. \<not> blocking_frame h callstacks vv e)"
    by (simp add: list_ex_iff code_blocking_group)
  show ?thesis
  proof (cases "find (\<lambda>cs. \<forall>e \<in> set cs. \<not> blocking_frame h callstacks vv e) stacks")
    case None
    then show ?thesis
      by (simp add: filtered_of_def dedup_spec_def uniqueCallStack_find eq)
  next
    case (Some cs)
    then have "cs \<in> set stacks" by (auto simp: find_Some_iff)
    with assms have "cs \<noteq> []" by auto
    with Some show ?thesis
      by (simp add: filtered_of_def dedup_spec_def uniqueCallStack_find eq)
  qed
qed

lemma map_of_map_entry:
  "distinct (map fst al) \<Longrightarrow> (k, v) \<in> set al \<Longrightarrow>
   map_of (map (\<lambda>p. (fst p, g (fst p) (snd p))) al) k = Some (g k v)"
  by (induction al) (auto simp: rev_image_eqI)

text \<open>
  C3. For a vulnerability \<open>vv\<close> of the map with its ranked candidates \<open>stacks\<close>, each
  of which has at least one frame, \<open>filterCallStacks\<close> stores what the specification
  describes: nothing when the call sink is nil or no candidate is free of blocking
  frames, and otherwise exactly the first candidate that is.
\<close>

theorem filterCallStacks_first_unique:
  assumes "distinct (map fst callstacks)" and "(vv, stacks) \<in> set callstacks"
    and "[] \<notin> set stacks"
  shows "map_of (filterCallStacks h callstacks) vv = Some (dedup_spec h callstacks vv stacks)"
proof -
  have "map_of (filterCallStacks h callstacks) vv
      = Some (filtered_of h (group_of h callstacks vv) vv stacks)"
    unfolding filterCallStacks_entries
    by (rule map_of_map_entry[OF assms(1,2), of "\<lambda>k v. filtered_of h (group_of h callstacks k) k v"])
  then show ?thesis by (simp add: filtered_of_spec[OF assms(3)])
qed

theorem filterCallStacks_first_unique_witness:
  "distinct (map fst ranked_dedup) \<and> (0, [via_Parse, via_helper]) \<in> set ranked_dedup \<and>
   [] \<notin> set [via_Parse, via_helper] \<and>
   map_of (filterCallStacks h_dedup ranked_dedup) 0
     = Some (dedup_spec h_dedup ranked_dedup 0 [via_Parse, via_helper]) \<and>
   dedup_spec h_dedup ranked_dedup 0 [via_Parse, via_helper] = [via_helper]"
proof -
  have d: "distinct (map fst ranked_dedup)" by (simp add: ranked_dedup_def)
  have m: "(0, [via_Parse, via_helper]) \<in> set ranked_dedup" by (simp add: ranked_dedup_def)
  have n: "[] \<notin> set [via_Parse, via_helper]" by (simp add: via_Parse_def via_helper_def)
  have v: "dedup_spec h_dedup ranked_dedup 0 [via_Parse, via_helper] = [via_helper]"
    by (simp add: dedup_spec_def blocking_frame_def same_group_def vuln_key_def h_dedup_def
        ranked_dedup_def via_Parse_def via_helper_def)
  from filterCallStacks_first_unique [OF d m n, of h_dedup] d m n v show ?thesis by blast
qed

lemma find_result_ok:
  "\<not> list_ex P (case find (\<lambda>cs. \<not> list_ex P cs) css of None \<Rightarrow> [] | Some cs \<Rightarrow> cs)"
  by (induction css) auto

lemma uniqueCallStack_single:
  "uniqueCallStack h v [cs] vg = (if list_ex (code_blocking h v vg) cs then [] else cs)"
proof -
  have "code_blocking h v vg =
      (\<lambda>e. Some (Function e) \<noteq> CallSink (vulns h v) \<and>
            Some (Function e) \<in> set (map (\<lambda>w. CallSink (vulns h w)) vg))"
    by (rule ext) (simp add: code_blocking_def)
  then show ?thesis by simp
qed

lemma uniqueCallStack_idem:
  "uniqueCallStack h v [uniqueCallStack h v css vg] vg = uniqueCallStack h v css vg"
proof -
  have "\<not> list_ex (code_blocking h v vg) (uniqueCallStack h v css vg)"
    unfolding uniqueCallStack_find[of h v css] by (rule find_result_ok)
  then show ?thesis by (simp only: uniqueCallStack_single if_False)
qed

lemma filtered_of_idem:
  "filtered_of h vg vv (filtered_of h vg vv stacks) = filtered_of h vg vv stacks"
  by (simp add: filtered_of_def Let_def uniqueCallStack_idem del: uniqueCallStack.simps(2))

lemma group_of_filterCallStacks:
  "group_of h (filterCallStacks h callstacks) vv = group_of h callstacks vv"
  by (simp add: group_of_def filterCallStacks_entries o_def)

text \<open>
  C9. Filtering an already filtered map changes nothing.
\<close>

theorem filterCallStacks_idempotent:
  "filterCallStacks h (filterCallStacks h callstacks) = filterCallStacks h callstacks"
proof -
  have "filterCallStacks h (filterCallStacks h callstacks)
      = map (\<lambda>p. (fst p, filtered_of h (group_of h callstacks (fst p)) (fst p) (snd p)))
          (filterCallStacks h callstacks)"
    by (subst filterCallStacks_entries) (simp add: group_of_filterCallStacks)
  also have "\<dots> = filterCallStacks h callstacks"
    by (simp add: filterCallStacks_entries o_def filtered_of_idem)
  finally show ?thesis .
qed

theorem filterCallStacks_idempotent_witness:
  "filterCallStacks h_dedup (filterCallStacks h_dedup ranked_dedup)
     = filterCallStacks h_dedup ranked_dedup \<and>
   filterCallStacks h_dedup ranked_dedup = [(0, [via_helper]), (1, [to_Parse]), (2, [])]"
proof -
  have "filterCallStacks h_dedup ranked_dedup = [(0, [via_helper]), (1, [to_Parse]), (2, [])]"
    by (simp add: filterCallStacks_def vuln_key_def h_dedup_def ranked_dedup_def
        via_Parse_def via_helper_def to_Parse_def)
  with filterCallStacks_idempotent [of h_dedup ranked_dedup] show ?thesis by blast
qed

section \<open>The position reconciler\<close>

lemma keeps_refl: "keeps h h" by (simp add: keeps_def)

lemma keeps_trans: "keeps h h1 \<Longrightarrow> keeps h1 h2 \<Longrightarrow> keeps h h2"
  by (simp add: keeps_def)

lemma keeps_updateInitPosition: "updateInitPosition h se = Inr h' \<Longrightarrow> keeps h h'"
  by (auto simp: updateInitPosition_def Let_def bind_err_def keeps_def split: if_splits sum.splits)

lemma keeps_updateInitCallPosition: "updateInitCallPosition x h cur nxt = Inr h' \<Longrightarrow> keeps h h'"
  by (auto simp: updateInitCallPosition_def Let_def bind_err_def keeps_def split: if_splits sum.splits option.splits)

lemma keeps_frames: "updateInit_frames x h cs = Inr h' \<Longrightarrow> keeps h h'"
proof (induction x h cs arbitrary: h' rule: updateInit_frames.induct)
  case (1 x h) then show ?case by (simp add: keeps_refl)
next
  case (2 x h e) then show ?case by (simp add: keeps_updateInitPosition)
next
  case (3 x h e nxt rest)
  from "3.prems" obtain h1 h2 where s1: "updateInitPosition h e = Inr h1"
    and s2: "updateInitCallPosition x h1 e nxt = Inr h2"
    and s3: "updateInit_frames x h2 (nxt # rest) = Inr h'"
    by (auto simp: bind_err_def split: sum.splits)
  from "3.IH"[OF s3] keeps_updateInitPosition[OF s1] keeps_updateInitCallPosition[OF s2]
  show ?case by (blast intro: keeps_trans)
qed

lemma keeps_stacks: "updateInit_stacks x h css = Inr h' \<Longrightarrow> keeps h h'"
proof (induction css arbitrary: h)
  case Nil then show ?case by (simp add: keeps_refl)
next
  case (Cons cs css)
  then obtain h1 where "updateInit_frames x h cs = Inr h1" "updateInit_stacks x h1 css = Inr h'"
    by (auto simp: bind_err_def split: sum.splits)
  with Cons.IH keeps_frames show ?case by (blast intro: keeps_trans)
qed

lemma keeps_map: "updateInitPositions x h m = Inr h' \<Longrightarrow> keeps h h'"
proof (induction m arbitrary: h)
  case Nil then show ?case by (simp add: keeps_refl)
next
  case (Cons a m)
  obtain vv css where a: "a = (vv, css)" by (cases a)
  with Cons.prems obtain h1 where "updateInit_stacks x h css = Inr h1" "updateInitPositions x h1 m = Inr h'"
    by (auto simp: bind_err_def split: sum.splits)
  with Cons.IH keeps_stacks show ?case by (blast intro: keeps_trans)
qed

lemma updateInitPositions_init:
  "updateInitPositions ex_extern h_init [(0, [init_stack])] = Inr h_init_after"
  by (simp add: init_stack_def h_init_after_def updateInitPosition_def
      updateInitCallPosition_def bind_err_def isInit_def pos_available_def
      packageStatementPos_def h_init_def Let_def IsValid_def pos_at_def)

text \<open>
  C5, as the code has it. The reconciler writes a position only where none is
  available, that is where the pointer is nil or the position is not valid; a position
  that is valid before a run that returns is the same afterwards, for every function and
  every call site of the heap.
\<close>

theorem updateInitPositions_keeps_valid:
  assumes "updateInitPositions x h stacksPerVuln = Inr h'"
  shows "(FuncNode.Pos (funcs h fn) = Some p \<longrightarrow> IsValid p \<longrightarrow>
            FuncNode.Pos (funcs h' fn) = Some p) \<and>
         (CallSite.Pos (sites h c) = Some q \<longrightarrow> IsValid q \<longrightarrow>
            CallSite.Pos (sites h' c) = Some q)"
  using keeps_map[OF assms] by (auto simp: keeps_def pos_available_def)

theorem updateInitPositions_keeps_valid_witness:
  "updateInitPositions ex_extern h_init [(0, [init_stack])] = Inr h_init_after \<and>
   FuncNode.Pos (funcs h_init 1) = Some (pos_at ''pkg.go'' 7 1) \<and>
   IsValid (pos_at ''pkg.go'' 7 1) \<and>
   FuncNode.Pos (funcs h_init_after 1) = Some (pos_at ''pkg.go'' 7 1) \<and>
   CallSite.Pos (sites h_init 1) = Some (pos_at ''pkg.go'' 8 3) \<and>
   IsValid (pos_at ''pkg.go'' 8 3) \<and>
   CallSite.Pos (sites h_init_after 1) = Some (pos_at ''pkg.go'' 8 3) \<and>
   FuncNode.Pos (funcs h_init 0) = None \<and>
   FuncNode.Pos (funcs h_init_after 0) = Some (pos_at ''pkg.go'' 1 1) \<and>
   CallSite.Pos (sites h_init 0) = None \<and>
   CallSite.Pos (sites h_init_after 0) = Some (pos_at ''pkg.go'' 1 1)"
proof -
  have f1: "FuncNode.Pos (funcs h_init 1) = Some (pos_at ''pkg.go'' 7 1)"
    and c1: "CallSite.Pos (sites h_init 1) = Some (pos_at ''pkg.go'' 8 3)"
    and v: "IsValid (pos_at ''pkg.go'' 7 1)" "IsValid (pos_at ''pkg.go'' 8 3)"
    by (simp_all add: h_init_def IsValid_def pos_at_def)
  have rest: "FuncNode.Pos (funcs h_init 0) = None"
    "FuncNode.Pos (funcs h_init_after 0) = Some (pos_at ''pkg.go'' 1 1)"
    "CallSite.Pos (sites h_init 0) = None"
    "CallSite.Pos (sites h_init_after 0) = Some (pos_at ''pkg.go'' 1 1)"
    by (simp_all add: h_init_def h_init_after_def)
  from updateInitPositions_keeps_valid [OF updateInitPositions_init,
      of 1 "pos_at ''pkg.go'' 7 1" 1 "pos_at ''pkg.go'' 8 3"]
    updateInitPositions_init f1 c1 v rest
  show ?thesis by blast
qed

text \<open>
  C5, as the claim has it, fails: the position of the generated \<open>init\<close> is not nil
  before the run and is replaced by the position of the package statement.
\<close>

theorem updateInitPositions_overwrites_invalid:
  "FuncNode.Pos (funcs h_init 3) = Some (pos_at ''gen.go'' 0 0) \<and>
   updateInitPositions ex_extern h_init [(0, [gen_stack])] = Inr h_gen_after \<and>
   FuncNode.Pos (funcs h_gen_after 3) = Some (pos_at ''gen.go'' 3 1) \<and>
   pos_at ''gen.go'' 3 1 \<noteq> pos_at ''gen.go'' 0 0"
  by (simp add: gen_stack_def h_gen_after_def updateInitPosition_def bind_err_def isInit_def
      pos_available_def packageStatementPos_def h_init_def Let_def IsValid_def pos_at_def)

section \<open>The stack finder\<close>

lemma loop_rule:
  assumes run: "callStacks_loop x h E seen q st = Some r"
    and inv: "I seen q st"
    and stop: "\<And>seen st. I seen [] st \<Longrightarrow> Q st"
    and skip: "\<And>seen c rest st. I seen (c # rest) st \<Longrightarrow> f c \<in> seen \<Longrightarrow> I seen rest st"
    and step: "\<And>seen c rest st st' q'. I seen (c # rest) st \<Longrightarrow> f c \<notin> seen \<Longrightarrow>
        expand h E c (callsites x h (CallSites (funcs h (f c))) (insert (f c) seen)) (st, rest) = (st', q')
        \<Longrightarrow> I (insert (f c) seen) q' st'"
  shows "Q r"
proof -
  define P where "P = (\<lambda>x' h' E' seen q st r. x' = x \<and> h' = h \<and> E' = E \<longrightarrow> I seen q st \<longrightarrow> Q r)"
  have body: "P x' h' E' seen q st r"
    if IH: "\<And>x h E seen q st r. loop x h E seen q st = Some r \<Longrightarrow> P x h E seen q st r"
    and eq: "(case q of [] \<Rightarrow> Some st
      | c # rest \<Rightarrow>
          if f c \<in> seen then loop x' h' E' seen rest st
          else case expand h' E' c
                     (callsites x' h' (CallSites (funcs h' (f c))) (insert (f c) seen))
                     (st, rest) of
               (stacks', queue') \<Rightarrow> loop x' h' E' (insert (f c) seen) queue' stacks') = Some r"
    for loop x' h' E' seen q st r
  proof (cases q)
    case Nil
    with eq stop show ?thesis by (auto simp: P_def)
  next
    case (Cons c rest)
    show ?thesis
    proof (cases "f c \<in> seen")
      case True
      with eq Cons have "loop x' h' E' seen rest st = Some r" by simp
      from IH[OF this] skip[OF _ True] Cons show ?thesis by (auto simp: P_def)
    next
      case False
      obtain st' q' where ex: "expand h' E' c
                     (callsites x' h' (CallSites (funcs h' (f c))) (insert (f c) seen))
                     (st, rest) = (st', q')" by (cases "expand h' E' c
                     (callsites x' h' (CallSites (funcs h' (f c))) (insert (f c) seen))
                     (st, rest)") auto
      with eq Cons False have "loop x' h' E' (insert (f c) seen) q' st' = Some r" by simp
      from IH[OF this] step[OF _ False] ex Cons show ?thesis by (auto simp: P_def)
    qed
  qed
  have "P x h E seen q st r"
    by (rule callStacks_loop.raw_induct[where P=P and xa="(((((x,h),E),seen),q),st)" and y=r,
          simplified, OF _ run]) (rule body, assumption+)
  then show ?thesis using inv by (simp add: P_def)
qed

lemma CallStack_hd: "callChain_CallStack (Some c) = \<lparr>Function = f c, Call = call c\<rparr> # callChain_CallStack (child c)"
  by (cases c) simp

lemma good_chain_extend:
  assumes "good_chain h S c" "cs \<in> set (CallSites (funcs h (f c)))"
  shows "good_chain h S (Chain (Some cs) (Parent (sites h cs)) (Some c))"
  using assms unfolding good_chain_def
  by (subst (asm) CallStack_hd) (simp add: CallStack_hd[of c])

lemma expand_inv:
  assumes "expand h E c css (st, q) = (st', q')"
    and "good_chain h S c" "set css \<subseteq> set (CallSites (funcs h (f c)))"
    and "\<forall>s\<in>set st. good_stack h E S s" "\<forall>d\<in>set q. good_chain h S d"
  shows "(\<forall>s\<in>set st'. good_stack h E S s) \<and> (\<forall>d\<in>set q'. good_chain h S d)"
  using assms
proof (induction css arbitrary: st q)
  case Nil then show ?case by simp
next
  case (Cons cs css)
  let ?n = "Chain (Some cs) (Parent (sites h cs)) (Some c)"
  have gn: "good_chain h S ?n" using Cons.prems by (auto intro: good_chain_extend)
  have gs: "good_stack h E S (callChain_CallStack (Some ?n))" if "Parent (sites h cs) \<in> E"
    using gn that unfolding good_stack_def good_chain_def by (simp add: CallStack_hd[of c])
  show ?case
  proof (rule Cons.IH)
    show "expand h E c css (if Parent (sites h cs) \<in> E then st @ [callChain_CallStack (Some ?n)] else st, q @ [?n]) = (st', q')"
      using Cons.prems(1) by (simp add: Let_def)
  qed (use Cons.prems gn gs in \<open>auto\<close>)
qed

lemma callStacks_good:
  assumes "callStacks x h (Some S) res = Some stacks"
  shows "\<forall>s\<in>set stacks. good_stack h (set (EntryFunctions res)) S s"
proof -
  let ?E = "set (EntryFunctions res)"
  let ?I = "\<lambda>(seen::fptr set) q st. (\<forall>s\<in>set st. good_stack h ?E S s) \<and> (\<forall>d\<in>set q. good_chain h S d)"
  from assms have run: "callStacks_loop x h ?E {} [Chain None S None] [] = Some stacks"
    by (simp add: callStacks_def)
  show ?thesis
  proof (rule loop_rule[OF run, where I = ?I])
    show "?I {} [Chain None S None] []" by (simp add: good_chain_def)
  next
    fix seen c rest st st' q'
    assume I: "?I seen (c # rest) st"
      and ex: "expand h ?E c (callsites x h (CallSites (funcs h (f c))) (insert (f c) seen)) (st, rest) = (st', q')"
    from expand_inv[OF ex, of S] I callsites_subset
    show "?I (insert (f c) seen) q' st'" by auto
  qed auto
qed

lemma linked_props:
  "linked h S st \<Longrightarrow>
     st \<noteq> [] \<and> Function (last st) = S \<and> Call (last st) = None \<and>
     (\<forall>i. Suc i < length st \<longrightarrow>
        (\<exists>cs. Call (st ! i) = Some cs \<and> Parent (sites h cs) = Function (st ! i) \<and>
              cs \<in> set (CallSites (funcs h (Function (st ! Suc i))))))"
proof (induction h S st rule: linked.induct)
  case (1 h S) then show ?case by simp
next
  case (2 h S e) then show ?case by simp
next
  case (3 h S e e' rest)
  then have IH: "Function (last (e' # rest)) = S \<and> Call (last (e' # rest)) = None \<and>
     (\<forall>i. Suc i < length (e' # rest) \<longrightarrow>
        (\<exists>cs. Call ((e' # rest) ! i) = Some cs \<and> Parent (sites h cs) = Function ((e' # rest) ! i) \<and>
              cs \<in> set (CallSites (funcs h (Function ((e' # rest) ! Suc i))))))"
    and hd: "\<exists>cs. Call e = Some cs \<and> Parent (sites h cs) = Function e \<and> cs \<in> set (CallSites (funcs h (Function e')))"
    by (auto split: option.splits)
  show ?case
  proof (intro conjI allI impI)
    fix i assume "Suc i < length (e # e' # rest)"
    then show "\<exists>cs. Call ((e # e' # rest) ! i) = Some cs \<and> Parent (sites h cs) = Function ((e # e' # rest) ! i) \<and>
              cs \<in> set (CallSites (funcs h (Function ((e # e' # rest) ! Suc i))))"
      using IH hd by (cases i) auto
  qed (use IH in auto)
qed

text \<open>
  C2. Every stack that \<open>callStacks\<close> returns for a sink \<open>S\<close> starts at an entry
  function, ends in the frame of \<open>S\<close> with a nil call, and the call of every other
  frame is a call site whose parent is the function of that frame and which is an
  incoming call site of the function of the next frame.
\<close>

theorem callStacks_stack_invariant:
  assumes "callStacks x h (Some S) res = Some stacks" and "st \<in> set stacks"
  shows "st \<noteq> [] \<and> Function (st ! 0) \<in> set (EntryFunctions res) \<and>
         Function (last st) = S \<and> Call (last st) = None \<and>
         (\<forall>i. Suc i < length st \<longrightarrow>
            (\<exists>cs. Call (st ! i) = Some cs \<and> Parent (sites h cs) = Function (st ! i) \<and>
                  cs \<in> set (CallSites (funcs h (Function (st ! Suc i))))))"
proof -
  from callStacks_good[OF assms(1)] assms(2)
  have g: "good_stack h (set (EntryFunctions res)) S st" by blast
  then have "linked h S st" and "Function (hd st) \<in> set (EntryFunctions res)"
    by (simp_all add: good_stack_def)
  with linked_props[of h S st] show ?thesis by (auto simp: hd_conv_nth)
qed

theorem callStacks_stack_invariant_witness:
  "callStacks ex_extern h0 (Some 0) res0 = Some [stack_A, stack_B] \<and>
   stack_A \<in> set [stack_A, stack_B] \<and> stack_A \<noteq> [] \<and>
   Function (stack_A ! 0) \<in> set (EntryFunctions res0) \<and>
   Function (last stack_A) = 0 \<and> Call (last stack_A) = None \<and>
   Call (stack_A ! 0) = Some 2 \<and> Parent (sites h0 2) = Function (stack_A ! 0) \<and>
   2 \<in> set (CallSites (funcs h0 (Function (stack_A ! 1)))) \<and>
   Call (stack_A ! 1) = Some 0 \<and> Parent (sites h0 0) = Function (stack_A ! 1) \<and>
   0 \<in> set (CallSites (funcs h0 (Function (stack_A ! 2))))"
proof -
  have m: "stack_A \<in> set [stack_A, stack_B]" by simp
  have c: "Call (stack_A ! 0) = Some 2" "Call (stack_A ! 1) = Some 0"
    "Function (stack_A ! 1) = 1" "Function (stack_A ! 2) = 0" "length stack_A = 3"
    by (simp_all add: stack_A_def)
  from callStacks_stack_invariant [OF callStacks_h0 m]
  have inv: "stack_A \<noteq> [] \<and> Function (stack_A ! 0) \<in> set (EntryFunctions res0) \<and>
         Function (last stack_A) = 0 \<and> Call (last stack_A) = None \<and>
         (\<forall>i. Suc i < length stack_A \<longrightarrow>
            (\<exists>cs. Call (stack_A ! i) = Some cs \<and> Parent (sites h0 cs) = Function (stack_A ! i) \<and>
                  cs \<in> set (CallSites (funcs h0 (Function (stack_A ! Suc i))))))" .
  then have "\<exists>cs. Call (stack_A ! 0) = Some cs \<and> Parent (sites h0 cs) = Function (stack_A ! 0) \<and>
                  cs \<in> set (CallSites (funcs h0 (Function (stack_A ! Suc 0))))"
    and "\<exists>cs. Call (stack_A ! 1) = Some cs \<and> Parent (sites h0 cs) = Function (stack_A ! 1) \<and>
                  cs \<in> set (CallSites (funcs h0 (Function (stack_A ! Suc 1))))"
    using c(5) by simp_all
  with c have "Parent (sites h0 2) = Function (stack_A ! 0)"
    "2 \<in> set (CallSites (funcs h0 (Function (stack_A ! 1))))"
    "Parent (sites h0 0) = Function (stack_A ! 1)"
    "0 \<in> set (CallSites (funcs h0 (Function (stack_A ! 2))))"
    by (simp_all add: numeral_2_eq_2)
  with inv c m callStacks_h0 show ?thesis by blast
qed

lemma callStacks_sink_entry:
  "callStacks ex_extern h0 (Some 0) res_sink_entry = Some [stack_A, stack_B]"
  by (simp add: callStacks_def callStacks_loop.simps callsites_def Let_def h0_def
      res_sink_entry_def csLess_def posLess_def pos_at_def ex_extern_def funcLess_def
      insertionSort_def List.map_filter_def stack_A_def stack_B_def)

lemma callsites_no_sites: "callsites x h [] visited = []"
  by (simp add: callsites_def List.map_filter_def)

lemma callStacks_no_callers:
  assumes "CallSites (funcs h S) = []"
  shows "callStacks x h (Some S) res = Some []"
proof -
  have "callStacks_loop x h (set (EntryFunctions res)) {} [Chain None S None] []
      = callStacks_loop x h (set (EntryFunctions res)) {S} [] []"
    by (subst callStacks_loop.simps) (simp add: assms callsites_no_sites)
  also have "\<dots> = Some []"
    by (subst callStacks_loop.simps) simp
  finally show ?thesis by (simp add: callStacks_def)
qed

text \<open>
  C7, as the code has it. A stack is recorded only when an entry function is reached as
  the caller of a selected call site, so every returned stack has a caller frame above
  the sink: when the sink is an entry function itself, the one-element stack of the sink
  is not among the results, and when the sink has no incoming call sites the search
  returns the empty result.
\<close>

theorem callStacks_no_singleton:
  assumes "S \<in> set (EntryFunctions res)"
  shows "(callStacks x h (Some S) res = Some stacks \<longrightarrow>
           [\<lparr>Function = S, Call = None\<rparr>] \<notin> set stacks \<and>
           (\<forall>st \<in> set stacks. 2 \<le> length st)) \<and>
         (CallSites (funcs h S) = [] \<longrightarrow> callStacks x h (Some S) res = Some [])"
proof -
  have "[\<lparr>Function = S, Call = None\<rparr>] \<notin> set stacks \<and> (\<forall>st \<in> set stacks. 2 \<le> length st)"
    if run: "callStacks x h (Some S) res = Some stacks"
    using callStacks_good[OF run] by (auto simp: good_stack_def)
  moreover have "callStacks x h (Some S) res = Some []" if "CallSites (funcs h S) = []"
    using that by (rule callStacks_no_callers)
  ultimately show ?thesis by blast
qed

theorem callStacks_no_singleton_witness:
  "0 \<in> set (EntryFunctions res_sink_entry) \<and>
   callStacks ex_extern h0 (Some 0) res_sink_entry = Some [stack_A, stack_B] \<and>
   [\<lparr>Function = 0, Call = None\<rparr>] \<notin> set [stack_A, stack_B] \<and>
   2 \<le> length stack_A \<and> 2 \<le> length stack_B \<and>
   1 \<in> set (EntryFunctions res_solo) \<and> CallSites (funcs h_nopos 1) = [] \<and>
   callStacks ex_extern h_nopos (Some 1) res_solo = Some []"
proof -
  have e: "0 \<in> set (EntryFunctions res_sink_entry)" by (simp add: res_sink_entry_def)
  have e': "1 \<in> set (EntryFunctions res_solo)" by (simp add: res_solo_def)
  have n: "CallSites (funcs h_nopos 1) = []" by (simp add: h_nopos_def)
  from callStacks_no_singleton [OF e, of ex_extern h0 "[stack_A, stack_B]"]
    callStacks_no_singleton [OF e', of ex_extern h_nopos "[]"]
    callStacks_sink_entry e e' n
  show ?thesis by simp
qed

text \<open>
  C7, as the claim has it, fails: \<open>init\<close> of the second example is the sink and an
  entry function and has no callers, and the result is empty.
\<close>

theorem callStacks_entry_sink_empty:
  "1 \<in> set (EntryFunctions res_solo) \<and>
   callStacks ex_extern h_nopos (Some 1) res_solo = Some [] \<and>
   [\<lparr>Function = 1, Call = None\<rparr>] \<notin> set ([] :: CallStack list)"
  by (simp add: callStacks_def callStacks_loop.simps callsites_def Let_def h_nopos_def
      res_solo_def ex_extern_def insertionSort_def List.map_filter_def)

section \<open>Termination of the search\<close>

text \<open>
  On a finite call graph the worklist loop returns: when the callers of the functions of
  a finite set \<open>U\<close> are in \<open>U\<close> again and the sink is in \<open>U\<close>, every newly visited
  function removes one element from \<open>U - seen\<close>, and a chain whose function was seen
  shortens the queue.
\<close>

lemma expand_queue:
  "expand h E c css (st, q) = (st', q') \<Longrightarrow>
     f ` set q' \<subseteq> f ` set q \<union> (\<lambda>cs. Parent (sites h cs)) ` set css"
proof (induction css arbitrary: st q)
  case Nil then show ?case by simp
next
  case (Cons cs css)
  from Cons.prems have "expand h E c css
      (if Parent (sites h cs) \<in> E
         then st @ [callChain_CallStack (Some (Chain (Some cs) (Parent (sites h cs)) (Some c)))]
         else st,
       q @ [Chain (Some cs) (Parent (sites h cs)) (Some c)]) = (st', q')"
    by (simp add: Let_def)
  from Cons.IH[OF this] show ?case by auto
qed

lemma callStacks_loop_returns:
  assumes fin: "finite U"
    and closed: "\<forall>g\<in>U. \<forall>cs\<in>set (CallSites (funcs h g)). Parent (sites h cs) \<in> U"
    and q: "\<forall>c\<in>set q. f c \<in> U"
  shows "\<exists>r. callStacks_loop x h E seen q st = Some r"
  using q
proof (induction "card (U - seen)" arbitrary: seen q st rule: less_induct)
  case less
  show ?case using less.prems
  proof (induction q arbitrary: st)
    case Nil
    then show ?case by (simp add: callStacks_loop.simps)
  next
    case (Cons c rest)
    show ?case
    proof (cases "f c \<in> seen")
      case True
      with Cons.IH[of st] Cons.prems show ?thesis
        by (subst callStacks_loop.simps) simp
    next
      case False
      let ?seen = "insert (f c) seen"
      let ?css = "callsites x h (CallSites (funcs h (f c))) ?seen"
      obtain st' q' where ex: "expand h E c ?css (st, rest) = (st', q')"
        by (cases "expand h E c ?css (st, rest)") auto
      have cU: "f c \<in> U" using Cons.prems by simp
      have pU: "(\<lambda>cs. Parent (sites h cs)) ` set ?css \<subseteq> U"
        using callsites_subset[of x h "CallSites (funcs h (f c))" ?seen] closed cU by auto
      have q': "\<forall>d\<in>set q'. f d \<in> U"
      proof
        fix d assume "d \<in> set q'"
        then have "f d \<in> f ` set q'" by simp
        with expand_queue[OF ex] have "f d \<in> f ` set rest \<or> f d \<in> (\<lambda>cs. Parent (sites h cs)) ` set ?css"
          by auto
        with pU Cons.prems show "f d \<in> U" by auto
      qed
      have "U - ?seen \<subset> U - seen" using cU False by auto
      then have "card (U - ?seen) < card (U - seen)"
        using fin by (simp add: psubset_card_mono)
      from less.hyps[OF this q', of st'] ex False show ?thesis
        by (subst callStacks_loop.simps) simp
    qed
  qed
qed

lemma callStacks_returns:
  assumes "finite U"
    and "\<forall>g\<in>U. \<forall>cs\<in>set (CallSites (funcs h g)). Parent (sites h cs) \<in> U"
    and "\<forall>s. vulnSink = Some s \<longrightarrow> s \<in> U"
  shows "\<exists>r. callStacks x h vulnSink res = Some r"
proof (cases vulnSink)
  case None then show ?thesis by (simp add: callStacks_def)
next
  case (Some s)
  with assms(3) have "\<forall>c\<in>set [Chain None s None]. f c \<in> U" by simp
  from callStacks_loop_returns[OF assms(1,2) this] Some show ?thesis
    by (simp add: callStacks_def)
qed

lemma CallStacks_tasks_returns:
  assumes "finite U"
    and "\<forall>g\<in>U. \<forall>cs\<in>set (CallSites (funcs h g)). Parent (sites h cs) \<in> U"
    and "\<forall>v\<in>set vs. \<forall>s. CallSink (vulns h v) = Some s \<longrightarrow> s \<in> U"
  shows "\<exists>m. CallStacks_tasks x h res vs m0 = Some m"
  using assms(3)
proof (induction vs arbitrary: m0)
  case Nil then show ?case by simp
next
  case (Cons v vs)
  from callStacks_returns[OF assms(1,2), of "CallSink (vulns h v)" x res] Cons.prems
  obtain cs where "callStacks x h (CallSink (vulns h v)) res = Some cs" by auto
  with Cons.IH[of "AList.update v (SliceStable_stacks x (stackLess h) cs) m0"] Cons.prems
  show ?case by auto
qed

lemma CallStacks_returns:
  assumes "finite U"
    and "\<forall>g\<in>U. \<forall>cs\<in>set (CallSites (funcs h g)). Parent (sites h cs) \<in> U"
    and "\<forall>v\<in>set (Vulns res). \<forall>s. CallSink (vulns h v) = Some s \<longrightarrow> s \<in> U"
  shows "\<exists>m. CallStacks x h res = Some m"
  unfolding CallStacks_def by (rule CallStacks_tasks_returns[OF assms])

section \<open>The orchestrator\<close>

lemma CallStacks_tasks_lookup:
  assumes "CallStacks_tasks x h res vs m0 = Some m"
  shows "(v \<in> set vs \<longrightarrow>
           (\<exists>cs. callStacks x h (CallSink (vulns h v)) res = Some cs \<and>
                 map_of m v = Some (SliceStable_stacks x (stackLess h) cs))) \<and>
         (v \<notin> set vs \<longrightarrow> map_of m v = map_of m0 v)"
  using assms
proof (induction vs arbitrary: m0)
  case Nil then show ?case by simp
next
  case (Cons u vs)
  then obtain cs where cs: "callStacks x h (CallSink (vulns h u)) res = Some cs"
    and rest: "CallStacks_tasks x h res vs
                 (AList.update u (SliceStable_stacks x (stackLess h) cs) m0) = Some m"
    by (auto split: option.splits)
  from Cons.IH[OF rest] cs show ?case
    by (cases "v \<in> set vs") (auto simp: update_conv')
qed

lemma callStacks_nil: "callStacks x h None res = Some []"
  by (simp add: callStacks_def)

text \<open>
  C8. For a nil sink \<open>callStacks\<close> returns the nil list at once. On a finite call graph
  (the callers of the functions of a finite set \<open>U\<close> are in \<open>U\<close>, and so are the sinks
  of \<open>res.Vulns\<close>) \<open>CallStacks\<close> returns, and in the map it returns a vulnerability of
  \<open>res.Vulns\<close> with a nil sink has the empty list; \<open>sort.SliceStable\<close> leaves the
  empty slice empty.
\<close>

theorem CallStacks_nil_sink:
  assumes "vuln \<in> set (Vulns res)" and "CallSink (vulns h vuln) = None"
    and "SliceStable_stacks x (stackLess h) [] = []"
    and "finite U"
    and "\<forall>g\<in>U. \<forall>cs\<in>set (CallSites (funcs h g)). Parent (sites h cs) \<in> U"
    and "\<forall>v\<in>set (Vulns res). \<forall>s. CallSink (vulns h v) = Some s \<longrightarrow> s \<in> U"
  shows "callStacks x h (CallSink (vulns h vuln)) res = Some [] \<and>
         (\<exists>stacksPerVuln. CallStacks x h res = Some stacksPerVuln \<and>
                          map_of stacksPerVuln vuln = Some [])"
proof -
  from CallStacks_returns [OF assms(4,5,6)] obtain m where m: "CallStacks x h res = Some m"
    by blast
  from CallStacks_tasks_lookup [OF m [unfolded CallStacks_def], of vuln] assms(1,2,3)
  have "map_of m vuln = Some []" by (auto simp: callStacks_nil)
  with m assms(2) show ?thesis by (auto simp: callStacks_nil)
qed

lemma CallStacks_h0:
  "CallStacks ex_extern h0 res0 = Some [(0, [stack_B, stack_A]), (1, [])]"
proof -
  have s: "SliceStable_stacks ex_extern (stackLess h0) [stack_A, stack_B] = [stack_B, stack_A]"
    by (simp add: ex_extern_def insertionSort_def stackLess_def Let_def stack_A_def
        stack_B_def h0_def isStdPackage_def)
  have n: "SliceStable_stacks ex_extern (stackLess h0) [] = []"
    by (simp add: ex_extern_def insertionSort_def)
  have v: "CallSink (vulns h0 0) = Some 0" "CallSink (vulns h0 (Suc 0)) = None"
    by (simp_all add: h0_def)
  have vs: "Vulns res0 = [0, 1]" by (simp add: res0_def)
  show ?thesis
    by (simp add: CallStacks_def vs v callStacks_h0 callStacks_nil s n)
qed

theorem CallStacks_nil_sink_witness:
  "1 \<in> set (Vulns res0) \<and> CallSink (vulns h0 1) = None \<and>
   SliceStable_stacks ex_extern (stackLess h0) [] = [] \<and>
   finite {0, 1, 2, 3 :: fptr} \<and>
   callStacks ex_extern h0 (CallSink (vulns h0 1)) res0 = Some [] \<and>
   CallStacks ex_extern h0 res0 = Some [(0, [stack_B, stack_A]), (1, [])] \<and>
   map_of [(0 :: vptr, [stack_B, stack_A]), (1, [])] 1 = Some []"
proof -
  have a: "1 \<in> set (Vulns res0)" by (simp add: res0_def)
  have b: "CallSink (vulns h0 1) = None" by (simp add: h0_def)
  have c: "SliceStable_stacks ex_extern (stackLess h0) [] = []"
    by (simp add: ex_extern_def insertionSort_def)
  have d: "finite {0, 1, 2, 3 :: fptr}" by simp
  have e: "\<forall>g\<in>{0, 1, 2, 3}. \<forall>cs\<in>set (CallSites (funcs h0 g)).
             Parent (sites h0 cs) \<in> {0, 1, 2, 3}"
    by (simp add: h0_def)
  have g: "\<forall>v\<in>set (Vulns res0). \<forall>s. CallSink (vulns h0 v) = Some s \<longrightarrow> s \<in> {0, 1, 2, 3}"
    by (simp add: h0_def res0_def)
  from CallStacks_nil_sink [OF a b c d e g] CallStacks_h0 a b c d
  show ?thesis by auto
qed

end
